theory Spec2Isabelle
  imports Complex_Main "HOL-Library.Word"
begin

section \<open>SkGlyphIDSet: the sparse set of glyph ids\<close>

text \<open>
  The embedding follows \<^verbatim>\<open>src/core/SkGlyphRun.cpp\<close>. A glyph id and a dense index are
  \<^verbatim>\<open>uint16_t\<close>, the universe size is \<^verbatim>\<open>uint32_t\<close>. Quantities of type \<^verbatim>\<open>size_t\<close> count
  elements of buffers that exist in memory and are natural numbers here. A raw array is
  a list; a read or write past its end is undefined behaviour in the source and the value
  \<open>Inl OutOfBounds\<close> in the model.
\<close>

type_synonym SkGlyphID = "16 word"

datatype fault = OutOfBounds

definition kUndefGlyph :: SkGlyphID where
  "kUndefGlyph = 0"

record SkGlyphIDSet =
  fUniverseToUniqueSize :: nat
  fUniverseToUnique :: "16 word list"

text \<open>
  Modelled from the spec: the state of a newly constructed \<^verbatim>\<open>SkGlyphIDSet\<close> (the class
  declaration is in \<^verbatim>\<open>SkGlyphRun.h\<close>, which is not among the sources). No universe has
  been requested so far, so the map has no entries.
\<close>

definition SkGlyphIDSet_init :: SkGlyphIDSet where
  "SkGlyphIDSet_init = \<lparr>fUniverseToUniqueSize = 0, fUniverseToUnique = []\<rparr>"

text \<open>The variables that the loop of \<^verbatim>\<open>uniquifyGlyphIDs\<close> reads and writes.\<close>

record uniquify_vars =
  universeToUnique :: "16 word list"
  uniqueGlyphIDs :: "SkGlyphID list"
  denseIndices :: "16 word list"
  uniqueSize :: nat
  denseIndicesCursor :: nat

text \<open>
  The body of the loop, for one glyph id. \<^verbatim>\<open>SkTo<uint16_t>(uniqueSize)\<close> is a cast in a
  release build, hence \<open>word_of_nat\<close>, which truncates. The second operand of \<^verbatim>\<open>||\<close> is
  evaluated only when the first is false.
\<close>

definition uniquify_step :: "32 word \<Rightarrow> SkGlyphID \<Rightarrow> uniquify_vars \<Rightarrow> fault + uniquify_vars" where
  "uniquify_step universeSize glyphID0 v =
    (let glyphID = (if unat glyphID0 \<ge> unat universeSize then kUndefGlyph else glyphID0) in
     if unat glyphID \<ge> length (universeToUnique v) then Inl OutOfBounds
     else
       let uniqueIndex = universeToUnique v ! unat glyphID in
       if unat uniqueIndex < uniqueSize v \<and> unat uniqueIndex \<ge> length (uniqueGlyphIDs v)
       then Inl OutOfBounds
       else if unat uniqueIndex \<ge> uniqueSize v \<or> uniqueGlyphIDs v ! unat uniqueIndex \<noteq> glyphID
       then
         (let uniqueIndex' = (word_of_nat (uniqueSize v) :: 16 word) in
          if uniqueSize v \<ge> length (uniqueGlyphIDs v) then Inl OutOfBounds
          else if denseIndicesCursor v \<ge> length (denseIndices v) then Inl OutOfBounds
          else Inr (v\<lparr>uniqueGlyphIDs := (uniqueGlyphIDs v)[uniqueSize v := glyphID],
                      universeToUnique := (universeToUnique v)[unat glyphID := uniqueIndex'],
                      uniqueSize := uniqueSize v + 1,
                      denseIndices := (denseIndices v)[denseIndicesCursor v := uniqueIndex'],
                      denseIndicesCursor := denseIndicesCursor v + 1\<rparr>))
       else if denseIndicesCursor v \<ge> length (denseIndices v) then Inl OutOfBounds
       else Inr (v\<lparr>denseIndices := (denseIndices v)[denseIndicesCursor v := uniqueIndex],
                   denseIndicesCursor := denseIndicesCursor v + 1\<rparr>))"

fun uniquify_loop :: "32 word \<Rightarrow> SkGlyphID list \<Rightarrow> uniquify_vars \<Rightarrow> fault + uniquify_vars" where
  "uniquify_loop universeSize [] v = Inr v"
| "uniquify_loop universeSize (glyphID # rest) v =
     (case uniquify_step universeSize glyphID v of
        Inl e \<Rightarrow> Inl e
      | Inr v' \<Rightarrow> uniquify_loop universeSize rest v')"

text \<open>
  \<^verbatim>\<open>SkAutoTMalloc::reset(n)\<close> followed by \<^verbatim>\<open>sk_bzero\<close> over the \<open>n\<close> entries: a new array
  of \<open>n\<close> zeros.
\<close>

definition reset_bzero :: "nat \<Rightarrow> 16 word list" where
  "reset_bzero n = replicate n 0"

text \<open>
  The result of a call: the set afterwards, the returned span
  \<^verbatim>\<open>SkSpan(uniqueGlyphIDs, uniqueSize)\<close>, and the caller's two output buffers as the
  call leaves them.
\<close>

record uniquify_result =
  set_after :: SkGlyphIDSet
  returned_span :: "SkGlyphID list"
  uniqueGlyphIDs_after :: "SkGlyphID list"
  denseIndices_after :: "16 word list"

definition uniquifyGlyphIDs ::
  "SkGlyphIDSet \<Rightarrow> 32 word \<Rightarrow> SkGlyphID list \<Rightarrow> SkGlyphID list \<Rightarrow> 16 word list
     \<Rightarrow> fault + uniquify_result" where
  "uniquifyGlyphIDs s universeSize glyphIDs uniqueGlyphIDs0 denseIndices0 =
    (let s1 = (if unat universeSize > fUniverseToUniqueSize s
               then \<lparr>fUniverseToUniqueSize = unat universeSize,
                     fUniverseToUnique = reset_bzero (unat universeSize)\<rparr>
               else s)
     in case uniquify_loop universeSize glyphIDs
               \<lparr>universeToUnique = fUniverseToUnique s1,
                uniqueGlyphIDs = uniqueGlyphIDs0,
                denseIndices = denseIndices0,
                uniqueSize = 0,
                denseIndicesCursor = 0\<rparr> of
          Inl e \<Rightarrow> Inl e
        | Inr v \<Rightarrow>
            (let s2 = s1\<lparr>fUniverseToUnique := universeToUnique v\<rparr>;
                 s3 = (if fUniverseToUniqueSize s2 > 4096
                       then \<lparr>fUniverseToUniqueSize = 4096, fUniverseToUnique = reset_bzero 4096\<rparr>
                       else s2)
             in Inr \<lparr>set_after = s3,
                     returned_span = take (uniqueSize v) (uniqueGlyphIDs v),
                     uniqueGlyphIDs_after = uniqueGlyphIDs v,
                     denseIndices_after = denseIndices v\<rparr>))"

text \<open>The storage of a set matches the size it records.\<close>

definition set_ok :: "SkGlyphIDSet \<Rightarrow> bool" where
  "set_ok s \<longleftrightarrow> length (fUniverseToUnique s) = fUniverseToUniqueSize s"

subsection \<open>What deduplication is to compute\<close>

text \<open>The glyph id that is looked up: an id outside the universe stands for glyph 0.\<close>

definition remap :: "32 word \<Rightarrow> SkGlyphID \<Rightarrow> SkGlyphID" where
  "remap universeSize glyphID = (if unat glyphID \<ge> unat universeSize then kUndefGlyph else glyphID)"

text \<open>The position of the first occurrence of \<open>x\<close> in \<open>xs\<close> (the length of \<open>xs\<close> if there is none).\<close>

fun index_of :: "'a list \<Rightarrow> 'a \<Rightarrow> nat" where
  "index_of [] x = 0"
| "index_of (y # ys) x = (if x = y then 0 else Suc (index_of ys x))"

text \<open>
  The ids of a sequence in the order in which each is met for the first time: reading
  from the left, an id not met before is appended.
\<close>

definition insert_new :: "'a list \<Rightarrow> 'a \<Rightarrow> 'a list" where
  "insert_new seen x = (if x \<in> set seen then seen else seen @ [x])"

definition first_occurrences :: "'a list \<Rightarrow> 'a list" where
  "first_occurrences xs = foldl insert_new [] xs"

text \<open>
  The invariant of the loop: the first \<open>uniqueSize\<close> entries of \<open>uniqueGlyphIDs\<close> are
  distinct ids of the universe, and the map sends each of them back to its index.
\<close>

definition loop_inv :: "32 word \<Rightarrow> uniquify_vars \<Rightarrow> bool" where
  "loop_inv universeSize v \<longleftrightarrow>
     0 < unat universeSize \<and>
     unat universeSize \<le> length (universeToUnique v) \<and>
     uniqueSize v \<le> denseIndicesCursor v \<and>
     uniqueSize v \<le> length (uniqueGlyphIDs v) \<and>
     denseIndicesCursor v \<le> length (denseIndices v) \<and>
     distinct (take (uniqueSize v) (uniqueGlyphIDs v)) \<and>
     (\<forall>j<uniqueSize v.
        unat (uniqueGlyphIDs v ! j) < unat universeSize \<and>
        universeToUnique v ! unat (uniqueGlyphIDs v ! j) = word_of_nat j)"

section \<open>SkGlyphRunBuilder: from text to a positioned glyph run\<close>

subsection \<open>Points, paints and the collaborators\<close>

text \<open>
  \<^verbatim>\<open>SkScalar\<close> is a floating-point number in the source. The model leaves the scalar
  type open: it is any type with \<open>0\<close>, \<open>1\<close>, \<open>+\<close>, \<open>-\<close>, \<open>*\<close> and \<open>/\<close>, and no law of
  arithmetic is assumed about it, so that what is proved of positions holds whatever
  the operations round to.

  Modelled from the spec: \<^verbatim>\<open>SkPoint\<close> and its operators (\<^verbatim>\<open>SkPoint.h\<close> is not among
  the sources), as 2D points and vectors that are added, subtracted and scaled by
  coordinate.
\<close>

record 'a SkPoint =
  fX :: 'a
  fY :: 'a

definition SkPoint_Make :: "'a \<Rightarrow> 'a \<Rightarrow> 'a SkPoint" where
  "SkPoint_Make x y = \<lparr>fX = x, fY = y\<rparr>"

definition SkPoint_add :: "'a::plus SkPoint \<Rightarrow> 'a SkPoint \<Rightarrow> 'a SkPoint" where
  "SkPoint_add p v = \<lparr>fX = fX p + fX v, fY = fY p + fY v\<rparr>"

definition SkPoint_sub :: "'a::minus SkPoint \<Rightarrow> 'a SkPoint \<Rightarrow> 'a SkPoint" where
  "SkPoint_sub p v = \<lparr>fX = fX p - fX v, fY = fY p - fY v\<rparr>"

definition SkPoint_scale :: "'a::times SkPoint \<Rightarrow> 'a \<Rightarrow> 'a SkPoint" where
  "SkPoint_scale p s = \<lparr>fX = fX p * s, fY = fY p * s\<rparr>"

definition SK_ScalarHalf :: "'a::{one,plus,inverse}" where
  "SK_ScalarHalf = 1 / (1 + 1)"

datatype TextEncoding =
  kUTF8_TextEncoding | kUTF16_TextEncoding | kUTF32_TextEncoding | kGlyphID_TextEncoding

datatype Align = kLeft_Align | kCenter_Align | kRight_Align

datatype Encoding = kUTF8_Encoding | kUTF16_Encoding | kUTF32_Encoding

fun convert_encoding :: "TextEncoding \<Rightarrow> Encoding" where
  "convert_encoding kUTF8_TextEncoding = kUTF8_Encoding"
| "convert_encoding kUTF16_TextEncoding = kUTF16_Encoding"
| "convert_encoding kUTF32_TextEncoding = kUTF32_Encoding"
| "convert_encoding _ = kUTF32_Encoding"

text \<open>
  Modelled from the spec: the typeface, an external collaborator. \<open>countGlyphs\<close> is the
  C \<^verbatim>\<open>int\<close> it reports as the size of its glyph universe (read signed by \<open>sint\<close>);
  \<open>charsToGlyphs bytes encoding i\<close> is the glyph id it writes at index \<open>i\<close> of the output.
\<close>

record SkTypeface =
  countGlyphs :: "32 word"
  charsToGlyphs :: "8 word list \<Rightarrow> Encoding \<Rightarrow> nat \<Rightarrow> SkGlyphID"

text \<open>
  Modelled from the spec: what the builder reads of a paint. \<open>GetTypefaceOrDefault\<close> is
  the typeface \<^verbatim>\<open>SkPaintPriv::GetTypefaceOrDefault\<close> returns for it, and \<open>glyphAdvance\<close> is
  the advance that the strike found for the paint reports for a glyph id.
\<close>

record 'a SkPaint =
  getTextEncoding :: TextEncoding
  getTextAlign :: Align
  GetTypefaceOrDefault :: SkTypeface
  glyphAdvance :: "SkGlyphID \<Rightarrow> 'a SkPoint"

text \<open>
  Modelled from the spec: \<^verbatim>\<open>getAdvances(glyphIDs, out)\<close> of the metrics cache writes one
  advance per given id, in the same order, at the front of \<open>out\<close>.
\<close>

definition getAdvances ::
  "(SkGlyphID \<Rightarrow> 'a SkPoint) \<Rightarrow> SkGlyphID list \<Rightarrow> 'a SkPoint list \<Rightarrow> fault + 'a SkPoint list" where
  "getAdvances advanceOf glyphIDs out =
     (if length out < length glyphIDs then Inl OutOfBounds
      else Inr (map advanceOf glyphIDs @ drop (length glyphIDs) out))"

subsection \<open>The run and the builder\<close>

text \<open>
  A span is a pointer and a length; the model holds the elements it covers at the time
  the span is made.
\<close>

record 'a SkGlyphRun =
  fUniqueGlyphIDIndices :: "16 word list"
  fPositions :: "'a SkPoint list"
  fTemporaryShuntGlyphIDs :: "SkGlyphID list"
  fUniqueGlyphIDs :: "SkGlyphID list"
  fText :: "8 word list"
  fClusters :: "32 word list"
  fRunPaint :: "'a SkPaint"

text \<open>
  The three buffers that share a name with a field of the run carry the suffix \<open>_buf\<close>.
  The slot \<open>fScratchGlyphRun\<close> is \<open>None\<close> from the moment \<^verbatim>\<open>initialize\<close> runs the
  destructor of the run in it until \<^verbatim>\<open>makeGlyphRun\<close> constructs a new run in place.
\<close>

record 'a SkGlyphRunBuilder =
  fUniqueID :: nat
  fMaxTotalRunSize :: nat
  fUniqueGlyphIDIndices_buf :: "16 word list"
  fPositions_buf :: "'a SkPoint list"
  fUniqueGlyphIDs_buf :: "SkGlyphID list"
  fScratchGlyphIDs :: "SkGlyphID list"
  fScratchAdvances :: "'a SkPoint list"
  fScratchGlyphRun :: "'a SkGlyphRun option"
  fGlyphIDSet :: SkGlyphIDSet

text \<open>
  Modelled from the spec: a newly constructed builder (the class declaration is in
  \<^verbatim>\<open>SkGlyphRun.h\<close>): no run size seen yet, empty buffers, no current run.
\<close>

definition SkGlyphRunBuilder_init :: "'a SkGlyphRunBuilder" where
  "SkGlyphRunBuilder_init =
     \<lparr>fUniqueID = 0, fMaxTotalRunSize = 0, fUniqueGlyphIDIndices_buf = [],
      fPositions_buf = [], fUniqueGlyphIDs_buf = [], fScratchGlyphIDs = [],
      fScratchAdvances = [], fScratchGlyphRun = None, fGlyphIDSet = SkGlyphIDSet_init\<rparr>"

definition useGlyphRun :: "'a SkGlyphRunBuilder \<Rightarrow> 'a SkGlyphRun option" where
  "useGlyphRun b = fScratchGlyphRun b"

text \<open>
  \<^verbatim>\<open>SkAutoTMalloc::reset(n)\<close> gives a new array of \<open>n\<close> elements whose content the source
  leaves indeterminate; the model fills it with zeros.
\<close>

definition initialize :: "'a::zero SkGlyphRunBuilder \<Rightarrow> nat \<Rightarrow> 'a SkGlyphRunBuilder" where
  "initialize b totalRunSize =
     (let b1 = b\<lparr>fUniqueID := 0\<rparr>;
          b2 = (if totalRunSize > fMaxTotalRunSize b1
                then b1\<lparr>fMaxTotalRunSize := totalRunSize,
                        fUniqueGlyphIDIndices_buf := replicate totalRunSize 0,
                        fPositions_buf := replicate totalRunSize (SkPoint_Make 0 0),
                        fUniqueGlyphIDs_buf := replicate totalRunSize 0\<rparr>
                else b1)
      in b2\<lparr>fScratchGlyphRun := None\<rparr>)"

text \<open>
  The bytes of a glyph-id text read as \<^verbatim>\<open>uint16_t\<close> values, two bytes each, low byte
  first; a last odd byte is not read (\<^verbatim>\<open>byteLength / 2\<close>).
\<close>

fun glyphIDs_of_bytes :: "8 word list \<Rightarrow> SkGlyphID list" where
  "glyphIDs_of_bytes (lo # hi # rest) =
     word_of_nat (unat lo + 256 * unat hi) # glyphIDs_of_bytes rest"
| "glyphIDs_of_bytes _ = []"

text \<open>
  \<open>SkUTFN_CountUnichars\<close> (\<^verbatim>\<open>SkUtils.h\<close>) is a parameter: the number of code points of the
  bytes in an encoding, as a C \<^verbatim>\<open>int\<close>. The returned span is over \<open>fScratchGlyphIDs\<close>, or
  over the caller's bytes when the text is glyph ids already.
\<close>

definition textToGlyphIDs ::
  "(Encoding \<Rightarrow> 8 word list \<Rightarrow> int) \<Rightarrow> 'a SkGlyphRunBuilder \<Rightarrow> 'a SkPaint \<Rightarrow> 8 word list
     \<Rightarrow> 'a SkGlyphRunBuilder \<times> SkGlyphID list" where
  "textToGlyphIDs SkUTFN_CountUnichars b paint bytes =
     (let encoding = getTextEncoding paint in
      if encoding \<noteq> kGlyphID_TextEncoding then
        (let tfEncoding = convert_encoding encoding;
             utfSize = SkUTFN_CountUnichars tfEncoding bytes
         in if utfSize > 0 then
              (let runSize = nat utfSize;
                   typeface = GetTypefaceOrDefault paint;
                   glyphs = map (charsToGlyphs typeface bytes tfEncoding) [0..<runSize]
               in (b\<lparr>fScratchGlyphIDs := glyphs\<rparr>, glyphs))
            else (b, []))
      else (b, glyphIDs_of_bytes bytes))"

definition addDenseAndUnique ::
  "'a SkGlyphRunBuilder \<Rightarrow> 'a SkPaint \<Rightarrow> SkGlyphID list
     \<Rightarrow> fault + ('a SkGlyphRunBuilder \<times> SkGlyphID list)" where
  "addDenseAndUnique b paint glyphIDs =
     (if glyphIDs \<noteq> [] then
        (let typeface = GetTypefaceOrDefault paint;
             glyphUniverseSize = countGlyphs typeface
         in if 0 < sint glyphUniverseSize then
              (case uniquifyGlyphIDs (fGlyphIDSet b) glyphUniverseSize glyphIDs
                      (fUniqueGlyphIDs_buf b) (fUniqueGlyphIDIndices_buf b) of
                 Inl e \<Rightarrow> Inl e
               | Inr r \<Rightarrow>
                   Inr (b\<lparr>fGlyphIDSet := set_after r,
                          fUniqueGlyphIDs_buf := uniqueGlyphIDs_after r,
                          fUniqueGlyphIDIndices_buf := denseIndices_after r\<rparr>,
                        returned_span r))
            else Inr (b, []))
      else Inr (b, []))"

definition makeGlyphRun ::
  "'a SkGlyphRunBuilder \<Rightarrow> 'a SkPaint \<Rightarrow> SkGlyphID list \<Rightarrow> 'a SkPoint list \<Rightarrow> 16 word list
     \<Rightarrow> SkGlyphID list \<Rightarrow> 8 word list \<Rightarrow> 32 word list \<Rightarrow> 'a SkGlyphRunBuilder" where
  "makeGlyphRun b runPaint glyphIDs positions uniqueGlyphIDIndices uniqueGlyphIDs' text clusters =
     (if glyphIDs \<noteq> [] then
        (let glyphRunPaint = runPaint\<lparr>getTextEncoding := kGlyphID_TextEncoding,
                                      getTextAlign := kLeft_Align\<rparr>
         in b\<lparr>fScratchGlyphRun := Some
               \<lparr>fUniqueGlyphIDIndices = uniqueGlyphIDIndices,
                fPositions = positions,
                fTemporaryShuntGlyphIDs = glyphIDs,
                fUniqueGlyphIDs = uniqueGlyphIDs',
                fText = text,
                fClusters = clusters,
                fRunPaint = glyphRunPaint\<rparr>\<rparr>)
      else b)"

text \<open>\<^verbatim>\<open>std::vector::resize(n)\<close>: keeps the front, value-initialises what is new.\<close>

definition vector_resize :: "nat \<Rightarrow> 'a \<Rightarrow> 'a list \<Rightarrow> 'a list" where
  "vector_resize n fill xs = take n xs @ replicate (n - length xs) fill"

text \<open>
  The layout loop of \<^verbatim>\<open>drawText\<close>, \<^verbatim>\<open>for (size_t i = 0; i < runSize; i++)\<close>, with the
  number of iterations still to run as first argument.
\<close>

fun advance_loop ::
  "nat \<Rightarrow> nat \<Rightarrow> 'a::plus SkPoint list \<Rightarrow> 16 word list \<Rightarrow> 'a SkPoint list \<Rightarrow> 'a SkPoint
     \<Rightarrow> fault + ('a SkPoint list \<times> 'a SkPoint)" where
  "advance_loop 0 i advances indices positions endOfLastGlyph = Inr (positions, endOfLastGlyph)"
| "advance_loop (Suc n) i advances indices positions endOfLastGlyph =
     (if i \<ge> length positions \<or> i \<ge> length indices then Inl OutOfBounds
      else if unat (indices ! i) \<ge> length advances then Inl OutOfBounds
      else advance_loop n (Suc i) advances indices
             (positions[i := endOfLastGlyph])
             (SkPoint_add endOfLastGlyph (advances ! unat (indices ! i))))"

text \<open>
  \<^verbatim>\<open>drawText\<close>. Its \<^verbatim>\<open>SkASSERT(!glyphIDs.empty())\<close> holds at its only caller. After the
  layout loop has run, \<open>runSize\<close> is within both buffers, so the spans of length
  \<open>runSize\<close> over them are \<open>take runSize\<close>.
\<close>

definition drawText ::
  "'a::{zero,one,plus,minus,times,inverse} SkGlyphRunBuilder \<Rightarrow> 'a SkPaint \<Rightarrow> SkGlyphID list
     \<Rightarrow> 'a SkPoint \<Rightarrow> 8 word list \<Rightarrow> 32 word list \<Rightarrow> fault + 'a SkGlyphRunBuilder" where
  "drawText b paint glyphIDs origin text clusters =
     (let runSize = length glyphIDs in
      case addDenseAndUnique b paint glyphIDs of
        Inl e \<Rightarrow> Inl e
      | Inr (b1, unqiueGlyphIDs) \<Rightarrow>
          if unqiueGlyphIDs \<noteq> [] then
            (case getAdvances (glyphAdvance paint) unqiueGlyphIDs
                    (vector_resize runSize (SkPoint_Make 0 0) (fScratchAdvances b1)) of
               Inl e \<Rightarrow> Inl e
             | Inr advances \<Rightarrow>
                 (case advance_loop runSize 0 advances (fUniqueGlyphIDIndices_buf b1)
                         (fPositions_buf b1) origin of
                    Inl e \<Rightarrow> Inl e
                  | Inr (positions, endOfLastGlyph) \<Rightarrow>
                      (let positions' =
                             (if getTextAlign paint \<noteq> kLeft_Align then
                                (let len0 = SkPoint_sub endOfLastGlyph origin;
                                     len = (if getTextAlign paint = kCenter_Align
                                            then SkPoint_scale len0 SK_ScalarHalf else len0)
                                 in map (\<lambda>pt. SkPoint_sub pt len) (take runSize positions)
                                    @ drop runSize positions)
                              else positions);
                           b2 = b1\<lparr>fScratchAdvances := advances, fPositions_buf := positions'\<rparr>
                       in Inr (makeGlyphRun b2 paint glyphIDs
                                 (take runSize (fPositions_buf b2))
                                 (take runSize (fUniqueGlyphIDIndices_buf b2))
                                 unqiueGlyphIDs text clusters))))
          else Inr b1)"

text \<open>
  The two positioned modes. \<open>SK_DEBUG\<close> is the build flag under which they call
  \<^verbatim>\<open>addDenseAndUnique\<close> and drop what it returns. \<open>xpos\<close> and \<open>pos\<close> are the caller's
  arrays; reading \<open>runSize\<close> elements from a shorter one is out of bounds.
\<close>

definition drawPosTextH ::
  "bool \<Rightarrow> 'a SkGlyphRunBuilder \<Rightarrow> 'a SkPaint \<Rightarrow> SkGlyphID list \<Rightarrow> 'a list \<Rightarrow> 'a
     \<Rightarrow> 8 word list \<Rightarrow> 32 word list \<Rightarrow> fault + 'a SkGlyphRunBuilder" where
  "drawPosTextH SK_DEBUG b paint glyphIDs xpos constY text clusters =
     (let runSize = length glyphIDs in
      case (if SK_DEBUG then addDenseAndUnique b paint glyphIDs else Inr (b, [])) of
        Inl e \<Rightarrow> Inl e
      | Inr (b1, unused) \<Rightarrow>
          if length xpos < runSize \<or> length (fPositions_buf b1) < runSize then Inl OutOfBounds
          else
            (let b2 = b1\<lparr>fPositions_buf :=
                           map (\<lambda>x. SkPoint_Make x constY) (take runSize xpos)
                           @ drop runSize (fPositions_buf b1)\<rparr>
             in Inr (makeGlyphRun b2 paint glyphIDs (take runSize (fPositions_buf b2))
                       [] [] text clusters)))"

definition drawPosText ::
  "bool \<Rightarrow> 'a SkGlyphRunBuilder \<Rightarrow> 'a SkPaint \<Rightarrow> SkGlyphID list \<Rightarrow> 'a SkPoint list
     \<Rightarrow> 8 word list \<Rightarrow> 32 word list \<Rightarrow> fault + 'a SkGlyphRunBuilder" where
  "drawPosText SK_DEBUG b paint glyphIDs pos text clusters =
     (let runSize = length glyphIDs in
      case (if SK_DEBUG then addDenseAndUnique b paint glyphIDs else Inr (b, [])) of
        Inl e \<Rightarrow> Inl e
      | Inr (b1, unused) \<Rightarrow>
          if length pos < runSize then Inl OutOfBounds
          else Inr (makeGlyphRun b1 paint glyphIDs (take runSize pos) [] [] text clusters))"

definition prepareDrawText ::
  "(Encoding \<Rightarrow> 8 word list \<Rightarrow> int)
     \<Rightarrow> 'a::{zero,one,plus,minus,times,inverse} SkGlyphRunBuilder \<Rightarrow> 'a SkPaint
     \<Rightarrow> 8 word list \<Rightarrow> 'a SkPoint \<Rightarrow> fault + 'a SkGlyphRunBuilder" where
  "prepareDrawText SkUTFN_CountUnichars b paint bytes origin =
     (case textToGlyphIDs SkUTFN_CountUnichars b paint bytes of
        (b1, glyphIDs) \<Rightarrow>
          if glyphIDs \<noteq> [] then
            drawText (initialize b1 (length glyphIDs)) paint glyphIDs origin [] []
          else Inr b1)"

definition prepareDrawPosTextH ::
  "bool \<Rightarrow> (Encoding \<Rightarrow> 8 word list \<Rightarrow> int) \<Rightarrow> 'a::zero SkGlyphRunBuilder \<Rightarrow> 'a SkPaint
     \<Rightarrow> 8 word list \<Rightarrow> 'a list \<Rightarrow> 'a \<Rightarrow> fault + 'a SkGlyphRunBuilder" where
  "prepareDrawPosTextH SK_DEBUG SkUTFN_CountUnichars b paint bytes xpos constY =
     (case textToGlyphIDs SkUTFN_CountUnichars b paint bytes of
        (b1, glyphIDs) \<Rightarrow>
          if glyphIDs \<noteq> [] then
            drawPosTextH SK_DEBUG (initialize b1 (length glyphIDs)) paint glyphIDs xpos constY [] []
          else Inr b1)"

definition prepareDrawPosText ::
  "bool \<Rightarrow> (Encoding \<Rightarrow> 8 word list \<Rightarrow> int) \<Rightarrow> 'a::zero SkGlyphRunBuilder \<Rightarrow> 'a SkPaint
     \<Rightarrow> 8 word list \<Rightarrow> 'a SkPoint list \<Rightarrow> fault + 'a SkGlyphRunBuilder" where
  "prepareDrawPosText SK_DEBUG SkUTFN_CountUnichars b paint bytes pos =
     (case textToGlyphIDs SkUTFN_CountUnichars b paint bytes of
        (b1, glyphIDs) \<Rightarrow>
          if glyphIDs \<noteq> [] then
            drawPosText SK_DEBUG (initialize b1 (length glyphIDs)) paint glyphIDs pos [] []
          else Inr b1)"

text \<open>
  The buffers of a builder have the size of the largest run seen, and its set is
  consistent.
\<close>

definition builder_ok :: "'a SkGlyphRunBuilder \<Rightarrow> bool" where
  "builder_ok b \<longleftrightarrow>
     set_ok (fGlyphIDSet b) \<and>
     length (fUniqueGlyphIDIndices_buf b) = fMaxTotalRunSize b \<and>
     length (fPositions_buf b) = fMaxTotalRunSize b \<and>
     length (fUniqueGlyphIDs_buf b) = fMaxTotalRunSize b"

text \<open>The advance of each occurrence: that of its glyph, or of glyph 0 when out of range.\<close>

definition occurrence_advances :: "'a SkPaint \<Rightarrow> SkGlyphID list \<Rightarrow> 'a SkPoint list" where
  "occurrence_advances paint glyphIDs =
     map (\<lambda>g. glyphAdvance paint (remap (countGlyphs (GetTypefaceOrDefault paint)) g)) glyphIDs"

text \<open>
  What the layout is to compute: the position of occurrence \<open>i\<close> is the origin with the
  advances of the occurrences before it added one after the other, and the total advance
  is the end of the last glyph minus the origin.
\<close>

definition left_positions :: "'a::plus SkPoint \<Rightarrow> 'a SkPoint list \<Rightarrow> 'a SkPoint list" where
  "left_positions origin advances =
     map (\<lambda>i. foldl SkPoint_add origin (take i advances)) [0..<length advances]"

definition total_advance :: "'a::{plus,minus} SkPoint \<Rightarrow> 'a SkPoint list \<Rightarrow> 'a SkPoint" where
  "total_advance origin advances = SkPoint_sub (foldl SkPoint_add origin advances) origin"

definition alignment_shift ::
  "Align \<Rightarrow> 'a::{one,plus,minus,times,inverse} SkPoint \<Rightarrow> 'a SkPoint list \<Rightarrow> 'a SkPoint" where
  "alignment_shift align origin advances =
     (if align = kCenter_Align then SkPoint_scale (total_advance origin advances) SK_ScalarHalf
      else total_advance origin advances)"

subsection \<open>Concrete inputs\<close>

text \<open>
  A typeface with \<open>n\<close> glyphs that maps each byte to the glyph of the same number, a count
  of one code point per byte, and a paint over real scalars in which glyph \<open>g\<close> advances
  by \<open>g\<close> horizontally.
\<close>

definition example_typeface :: "32 word \<Rightarrow> SkTypeface" where
  "example_typeface n = \<lparr>countGlyphs = n, charsToGlyphs = (\<lambda>bytes encoding i. ucast (bytes ! i))\<rparr>"

definition example_count :: "Encoding \<Rightarrow> 8 word list \<Rightarrow> int" where
  "example_count encoding bytes = int (length bytes)"

definition example_paint :: "TextEncoding \<Rightarrow> Align \<Rightarrow> 32 word \<Rightarrow> real SkPaint" where
  "example_paint encoding align n =
     \<lparr>getTextEncoding = encoding, getTextAlign = align,
      GetTypefaceOrDefault = example_typeface n,
      glyphAdvance = (\<lambda>g. SkPoint_Make (real (unat g)) 0)\<rparr>"


section \<open>Properties of the sparse set\<close>

subsection \<open>First occurrences and positions\<close>

lemma index_of_less: "x \<in> set xs \<Longrightarrow> index_of xs x < length xs"
  by (induction xs) auto

lemma index_of_nth: "x \<in> set xs \<Longrightarrow> xs ! index_of xs x = x"
  by (induction xs) auto

lemma index_of_append: "x \<in> set xs \<Longrightarrow> index_of (xs @ ys) x = index_of xs x"
  by (induction xs) auto

lemma index_of_snoc: "x \<notin> set xs \<Longrightarrow> index_of (xs @ [x]) x = length xs"
  by (induction xs) auto

lemma index_of_distinct: "distinct xs \<Longrightarrow> j < length xs \<Longrightarrow> index_of xs (xs ! j) = j"
proof (induction xs arbitrary: j)
  case Nil
  then show ?case by simp
next
  case (Cons y ys)
  show ?case
  proof (cases j)
    case 0
    then show ?thesis by simp
  next
    case (Suc k)
    with Cons.prems have "ys ! k \<in> set ys" "k < length ys" "distinct ys" by auto
    with Cons.prems Suc Cons.IH [of k] show ?thesis by auto
  qed
qed

lemma distinct_glyphs_length:
  fixes xs :: "SkGlyphID list"
  assumes "distinct xs"
  shows "length xs \<le> 65536"
proof -
  have "length xs = card (set xs)" using assms by (simp add: distinct_card)
  also have "\<dots> \<le> card (UNIV :: SkGlyphID set)" by (rule card_mono) auto
  also have "\<dots> = 65536" by (simp add: card_word)
  finally show ?thesis .
qed

lemma unat_dense_index: "n < 65536 \<Longrightarrow> unat (word_of_nat n :: 16 word) = n"
  by (simp add: unat_of_nat)

lemma foldl_insert_new_prefix: "\<exists>zs. foldl insert_new seen xs = seen @ zs"
proof (induction xs arbitrary: seen)
  case Nil
  then show ?case by simp
next
  case (Cons x xs)
  obtain zs where zs: "foldl insert_new (insert_new seen x) xs = insert_new seen x @ zs"
    using Cons.IH by blast
  obtain ys where ys: "insert_new seen x = seen @ ys"
    by (cases "x \<in> set seen") (simp_all add: insert_new_def)
  have "foldl insert_new seen (x # xs) = seen @ (ys @ zs)"
    using zs ys by simp
  then show ?case by blast
qed

lemma set_foldl_insert_new: "set (foldl insert_new seen xs) = set seen \<union> set xs"
  by (induction xs arbitrary: seen) (auto simp: insert_new_def)

lemma distinct_foldl_insert_new: "distinct seen \<Longrightarrow> distinct (foldl insert_new seen xs)"
  by (induction xs arbitrary: seen) (auto simp: insert_new_def)

lemma first_occurrences_snoc:
  "first_occurrences (xs @ [x]) = insert_new (first_occurrences xs) x"
  by (simp add: first_occurrences_def)

lemma first_occurrences_remdups: "first_occurrences xs = rev (remdups (rev xs))"
proof (induction xs rule: rev_induct)
  case Nil
  then show ?case by (simp add: first_occurrences_def)
next
  case (snoc x xs)
  have "set (first_occurrences xs) = set xs"
    by (simp add: first_occurrences_def set_foldl_insert_new)
  with snoc show ?case
    by (simp add: first_occurrences_snoc insert_new_def)
qed

subsection \<open>One iteration of the loop\<close>

lemma remap_in_universe: "0 < unat U \<Longrightarrow> unat (remap U g) < unat U"
  by (simp add: remap_def kUndefGlyph_def)

lemma take_Suc_update: "n < length xs \<Longrightarrow> take (Suc n) (xs[n := x]) = take n xs @ [x]"
  by (simp add: take_Suc_conv_app_nth)

lemma uniquify_step_found:
  assumes inv: "loop_inv U v"
    and capd: "denseIndicesCursor v < length (denseIndices v)"
    and found: "unat (universeToUnique v ! unat (remap U g)) < uniqueSize v"
               "uniqueGlyphIDs v ! unat (universeToUnique v ! unat (remap U g)) = remap U g"
  shows "uniquify_step U g v =
           Inr (v\<lparr>denseIndices := (denseIndices v)[denseIndicesCursor v := universeToUnique v ! unat (remap U g)],
                  denseIndicesCursor := denseIndicesCursor v + 1\<rparr>)"
proof -
  have "unat (remap U g) < length (universeToUnique v)"
    using inv remap_in_universe [of U g] by (simp add: loop_inv_def)
  moreover have "uniqueSize v \<le> length (uniqueGlyphIDs v)"
    using inv by (simp add: loop_inv_def)
  ultimately show ?thesis
    using found capd by (simp add: uniquify_step_def remap_def Let_def)
qed

lemma uniquify_step_new:
  assumes inv: "loop_inv U v"
    and capd: "denseIndicesCursor v < length (denseIndices v)"
    and capu: "denseIndicesCursor v < length (uniqueGlyphIDs v)"
    and new: "\<not> (unat (universeToUnique v ! unat (remap U g)) < uniqueSize v \<and>
               uniqueGlyphIDs v ! unat (universeToUnique v ! unat (remap U g)) = remap U g)"
  shows "uniquify_step U g v =
           Inr (v\<lparr>uniqueGlyphIDs := (uniqueGlyphIDs v)[uniqueSize v := remap U g],
                  universeToUnique := (universeToUnique v)[unat (remap U g) := word_of_nat (uniqueSize v)],
                  uniqueSize := uniqueSize v + 1,
                  denseIndices := (denseIndices v)[denseIndicesCursor v := word_of_nat (uniqueSize v)],
                  denseIndicesCursor := denseIndicesCursor v + 1\<rparr>)"
proof -
  have "unat (remap U g) < length (universeToUnique v)"
    using inv remap_in_universe [of U g] by (simp add: loop_inv_def)
  moreover have "uniqueSize v < length (uniqueGlyphIDs v)"
    using inv capu by (simp add: loop_inv_def)
  ultimately show ?thesis
    using new capd by (auto simp add: uniquify_step_def remap_def Let_def)
qed

lemma new_glyph_not_seen:
  assumes inv: "loop_inv U v"
    and new: "\<not> (unat (universeToUnique v ! unat g) < uniqueSize v \<and>
               uniqueGlyphIDs v ! unat (universeToUnique v ! unat g) = g)"
  shows "g \<notin> set (take (uniqueSize v) (uniqueGlyphIDs v))"
proof
  assume "g \<in> set (take (uniqueSize v) (uniqueGlyphIDs v))"
  then obtain j where j: "j < uniqueSize v" "uniqueGlyphIDs v ! j = g"
    using inv by (auto simp: in_set_conv_nth loop_inv_def)
  have "length (take (uniqueSize v) (uniqueGlyphIDs v)) \<le> 65536"
    using inv by (intro distinct_glyphs_length) (simp add: loop_inv_def)
  then have "j < 65536" using j inv by (simp add: loop_inv_def)
  moreover have "universeToUnique v ! unat g = word_of_nat j"
    using inv j by (auto simp: loop_inv_def)
  ultimately have "unat (universeToUnique v ! unat g) = j"
    by (simp add: unat_dense_index)
  with j new show False by simp
qed

lemma uniquify_step_sim:
  assumes inv: "loop_inv U v"
    and capd: "denseIndicesCursor v < length (denseIndices v)"
    and capu: "denseIndicesCursor v < length (uniqueGlyphIDs v)"
  shows "\<exists>v' w. uniquify_step U g v = Inr v' \<and> loop_inv U v' \<and>
     take (uniqueSize v') (uniqueGlyphIDs v') =
       insert_new (take (uniqueSize v) (uniqueGlyphIDs v)) (remap U g) \<and>
     denseIndicesCursor v' = Suc (denseIndicesCursor v) \<and>
     denseIndices v' = (denseIndices v)[denseIndicesCursor v := w] \<and>
     unat w = index_of (take (uniqueSize v') (uniqueGlyphIDs v')) (remap U g) \<and>
     length (uniqueGlyphIDs v') = length (uniqueGlyphIDs v) \<and>
     drop (uniqueSize v') (uniqueGlyphIDs v') = drop (uniqueSize v') (uniqueGlyphIDs v) \<and>
     length (universeToUnique v') = length (universeToUnique v)"
proof -
  let ?g = "remap U g"
  let ?seen = "take (uniqueSize v) (uniqueGlyphIDs v)"
  let ?ui = "universeToUnique v ! unat ?g"
  have len_seen: "length ?seen = uniqueSize v"
    using inv by (simp add: loop_inv_def)
  have n_le: "uniqueSize v \<le> length (uniqueGlyphIDs v)"
    using inv by (simp add: loop_inv_def)
  have dist: "distinct ?seen"
    using inv by (simp add: loop_inv_def)
  show ?thesis
  proof (cases "unat ?ui < uniqueSize v \<and> uniqueGlyphIDs v ! unat ?ui = ?g")
    case True
    let ?v' = "v\<lparr>denseIndices := (denseIndices v)[denseIndicesCursor v := ?ui],
                  denseIndicesCursor := denseIndicesCursor v + 1\<rparr>"
    have step: "uniquify_step U g v = Inr ?v'"
      using uniquify_step_found [OF inv capd, of g] True by simp
    have nth: "?seen ! unat ?ui = ?g"
      using True by simp
    then have mem: "?g \<in> set ?seen"
      using True len_seen by (metis nth_mem)
    have idx: "index_of ?seen ?g = unat ?ui"
      using index_of_distinct [OF dist, of "unat ?ui"] True len_seen nth n_le by simp
    have inv': "loop_inv U ?v'"
      using inv capd by (simp add: loop_inv_def)
    have "take (uniqueSize ?v') (uniqueGlyphIDs ?v') = insert_new ?seen ?g"
      using mem by (simp add: insert_new_def)
    with step inv' idx show ?thesis
      by (intro exI [of _ ?v'] exI [of _ ?ui]) simp
  next
    case False
    let ?n = "uniqueSize v"
    let ?v' = "v\<lparr>uniqueGlyphIDs := (uniqueGlyphIDs v)[?n := ?g],
                  universeToUnique := (universeToUnique v)[unat ?g := word_of_nat ?n],
                  uniqueSize := ?n + 1,
                  denseIndices := (denseIndices v)[denseIndicesCursor v := word_of_nat ?n],
                  denseIndicesCursor := denseIndicesCursor v + 1\<rparr>"
    have step: "uniquify_step U g v = Inr ?v'"
      using uniquify_step_new [OF inv capd capu, of g] False by simp
    have notin: "?g \<notin> set ?seen"
      using new_glyph_not_seen [OF inv, of ?g] False by simp
    have n_lt: "?n < length (uniqueGlyphIDs v)"
      using inv capu by (simp add: loop_inv_def)
    have "distinct (?seen @ [?g])" using dist notin by simp
    then have "length (?seen @ [?g]) \<le> 65536" by (rule distinct_glyphs_length)
    then have n_small: "?n < 65536" using len_seen by simp
    have g_lt: "unat ?g < unat U" "unat ?g < length (universeToUnique v)"
      using inv remap_in_universe [of U g] by (simp_all add: loop_inv_def)
    have seen': "take (uniqueSize ?v') (uniqueGlyphIDs ?v') = ?seen @ [?g]"
      using n_lt by (simp add: take_Suc_update)
    have inv': "loop_inv U ?v'"
      unfolding loop_inv_def
    proof (intro conjI allI impI)
      fix j assume j: "j < uniqueSize ?v'"
      show "unat (uniqueGlyphIDs ?v' ! j) < unat U"
        using j inv g_lt n_lt by (cases "j = ?n") (simp_all add: loop_inv_def)
      show "universeToUnique ?v' ! unat (uniqueGlyphIDs ?v' ! j) = word_of_nat j"
      proof (cases "j = ?n")
        case True
        then show ?thesis using g_lt n_lt by simp
      next
        case False
        with j have jn: "j < ?n" by simp
        then have "uniqueGlyphIDs v ! j \<in> set ?seen"
          using len_seen by (metis nth_mem nth_take)
        then have "uniqueGlyphIDs v ! j \<noteq> ?g" using notin by auto
        then have "unat (uniqueGlyphIDs v ! j) \<noteq> unat ?g" by (simp add: word_unat_eq_iff)
        then show ?thesis using jn inv False by (simp add: loop_inv_def)
      qed
    qed (use inv capd n_lt seen' \<open>distinct (?seen @ [?g])\<close> in \<open>simp_all add: loop_inv_def\<close>)
    have idx: "unat (word_of_nat ?n :: 16 word) = index_of (?seen @ [?g]) ?g"
      using n_small notin len_seen by (simp add: unat_dense_index index_of_snoc)
    have ins: "insert_new ?seen ?g = ?seen @ [?g]"
      using notin by (simp add: insert_new_def)
    show ?thesis
      using step inv' seen' idx ins n_lt by (intro exI [of _ ?v'] exI [of _ "word_of_nat ?n"]) simp
  qed
qed

subsection \<open>The whole loop and the call\<close>

lemma mem_insert_new: "x \<in> set (insert_new seen x)"
  by (simp add: insert_new_def)

lemma length_insert_new: "length seen \<le> length (insert_new seen x)"
  by (simp add: insert_new_def)

lemma length_foldl_insert_new: "length seen \<le> length (foldl insert_new seen xs)"
  using foldl_insert_new_prefix [of seen xs] by auto

lemma index_of_foldl_insert_new:
  "x \<in> set seen \<Longrightarrow> index_of (foldl insert_new seen xs) x = index_of seen x"
  using foldl_insert_new_prefix [of seen xs] by (auto simp: index_of_append)

lemma uniquify_loop_sim:
  assumes "loop_inv U v"
    and "denseIndicesCursor v + length gs \<le> length (denseIndices v)"
    and "denseIndicesCursor v + length gs \<le> length (uniqueGlyphIDs v)"
  shows "\<exists>v'. uniquify_loop U gs v = Inr v' \<and> loop_inv U v' \<and>
     take (uniqueSize v') (uniqueGlyphIDs v') =
       foldl insert_new (take (uniqueSize v) (uniqueGlyphIDs v)) (map (remap U) gs) \<and>
     denseIndicesCursor v' = denseIndicesCursor v + length gs \<and>
     length (denseIndices v') = length (denseIndices v) \<and>
     (\<forall>i. i < denseIndicesCursor v \<or> denseIndicesCursor v + length gs \<le> i
        \<longrightarrow> denseIndices v' ! i = denseIndices v ! i) \<and>
     (\<forall>i<length gs. unat (denseIndices v' ! (denseIndicesCursor v + i)) =
        index_of (take (uniqueSize v') (uniqueGlyphIDs v')) (remap U (gs ! i))) \<and>
     length (uniqueGlyphIDs v') = length (uniqueGlyphIDs v) \<and>
     (\<forall>i. uniqueSize v' \<le> i \<and> i < length (uniqueGlyphIDs v)
        \<longrightarrow> uniqueGlyphIDs v' ! i = uniqueGlyphIDs v ! i) \<and>
     length (universeToUnique v') = length (universeToUnique v)"
  using assms
proof (induction gs arbitrary: v)
  case Nil
  then show ?case by simp
next
  case (Cons g gs)
  let ?cur = "denseIndicesCursor v"
  let ?seen = "take (uniqueSize v) (uniqueGlyphIDs v)"
  have capd: "?cur < length (denseIndices v)" and capu: "?cur < length (uniqueGlyphIDs v)"
    using Cons.prems by simp_all
  from uniquify_step_sim [OF Cons.prems(1) capd capu, of g]
  obtain v1 w where step: "uniquify_step U g v = Inr v1"
    and inv1: "loop_inv U v1"
    and seen1: "take (uniqueSize v1) (uniqueGlyphIDs v1) = insert_new ?seen (remap U g)"
    and cur1: "denseIndicesCursor v1 = Suc ?cur"
    and db1: "denseIndices v1 = (denseIndices v)[?cur := w]"
    and w: "unat w = index_of (take (uniqueSize v1) (uniqueGlyphIDs v1)) (remap U g)"
    and lub1: "length (uniqueGlyphIDs v1) = length (uniqueGlyphIDs v)"
    and rest1: "drop (uniqueSize v1) (uniqueGlyphIDs v1) = drop (uniqueSize v1) (uniqueGlyphIDs v)"
    and lm1: "length (universeToUnique v1) = length (universeToUnique v)"
    by blast
  let ?seen1 = "take (uniqueSize v1) (uniqueGlyphIDs v1)"
  have cap1: "denseIndicesCursor v1 + length gs \<le> length (denseIndices v1)"
       "denseIndicesCursor v1 + length gs \<le> length (uniqueGlyphIDs v1)"
    using Cons.prems cur1 db1 lub1 by simp_all
  from Cons.IH [OF inv1 cap1]
  obtain v2 where loop: "uniquify_loop U gs v1 = Inr v2"
    and inv2: "loop_inv U v2"
    and seen2: "take (uniqueSize v2) (uniqueGlyphIDs v2) = foldl insert_new ?seen1 (map (remap U) gs)"
    and cur2: "denseIndicesCursor v2 = denseIndicesCursor v1 + length gs"
    and ldb2: "length (denseIndices v2) = length (denseIndices v1)"
    and out2: "\<forall>i. i < denseIndicesCursor v1 \<or> denseIndicesCursor v1 + length gs \<le> i
        \<longrightarrow> denseIndices v2 ! i = denseIndices v1 ! i"
    and idx2: "\<forall>i<length gs. unat (denseIndices v2 ! (denseIndicesCursor v1 + i)) =
        index_of (take (uniqueSize v2) (uniqueGlyphIDs v2)) (remap U (gs ! i))"
    and lub2: "length (uniqueGlyphIDs v2) = length (uniqueGlyphIDs v1)"
    and rest2: "\<forall>i. uniqueSize v2 \<le> i \<and> i < length (uniqueGlyphIDs v1)
        \<longrightarrow> uniqueGlyphIDs v2 ! i = uniqueGlyphIDs v1 ! i"
    and lm2: "length (universeToUnique v2) = length (universeToUnique v1)"
    by blast
  let ?seen2 = "take (uniqueSize v2) (uniqueGlyphIDs v2)"
  have n12: "uniqueSize v1 \<le> uniqueSize v2"
  proof -
    have "length ?seen1 \<le> length ?seen2"
      unfolding seen2 by (rule length_foldl_insert_new)
    moreover have "uniqueSize v1 \<le> length (uniqueGlyphIDs v1)" "uniqueSize v2 \<le> length (uniqueGlyphIDs v2)"
      using inv1 inv2 by (simp_all add: loop_inv_def)
    ultimately show ?thesis by simp
  qed
  have a: "uniquify_loop U (g # gs) v = Inr v2"
    using step loop by simp
  have b: "?seen2 = foldl insert_new ?seen (map (remap U) (g # gs))"
    using seen2 seen1 by simp
  have c: "denseIndicesCursor v2 = ?cur + length (g # gs)"
    using cur2 cur1 by simp
  have d: "length (denseIndices v2) = length (denseIndices v)"
    using ldb2 db1 by simp
  have e: "\<forall>i. i < ?cur \<or> ?cur + length (g # gs) \<le> i \<longrightarrow> denseIndices v2 ! i = denseIndices v ! i"
    using out2 cur1 db1 by auto
  have f: "\<forall>i<length (g # gs). unat (denseIndices v2 ! (?cur + i)) =
        index_of ?seen2 (remap U ((g # gs) ! i))"
  proof (intro allI impI)
    fix i assume i: "i < length (g # gs)"
    show "unat (denseIndices v2 ! (?cur + i)) = index_of ?seen2 (remap U ((g # gs) ! i))"
    proof (cases i)
      case 0
      have "denseIndices v2 ! ?cur = denseIndices v1 ! ?cur"
        using out2 cur1 by simp
      also have "\<dots> = w" using db1 capd by simp
      finally have "unat (denseIndices v2 ! ?cur) = index_of ?seen1 (remap U g)"
        using w by simp
      also have "\<dots> = index_of ?seen2 (remap U g)"
        unfolding seen2 seen1
        by (rule index_of_foldl_insert_new [symmetric]) (rule mem_insert_new)
      finally show ?thesis using 0 by simp
    next
      case (Suc k)
      then have "k < length gs" using i by simp
      with idx2 have "unat (denseIndices v2 ! (denseIndicesCursor v1 + k)) =
        index_of ?seen2 (remap U (gs ! k))" by blast
      then show ?thesis using Suc cur1 by simp
    qed
  qed
  have g: "length (uniqueGlyphIDs v2) = length (uniqueGlyphIDs v)"
    using lub2 lub1 by simp
  have h: "\<forall>i. uniqueSize v2 \<le> i \<and> i < length (uniqueGlyphIDs v)
        \<longrightarrow> uniqueGlyphIDs v2 ! i = uniqueGlyphIDs v ! i"
  proof (intro allI impI)
    fix i assume i: "uniqueSize v2 \<le> i \<and> i < length (uniqueGlyphIDs v)"
    then have "uniqueGlyphIDs v2 ! i = uniqueGlyphIDs v1 ! i" using rest2 lub1 by simp
    also have "\<dots> = uniqueGlyphIDs v ! i"
    proof -
      have "drop (uniqueSize v1) (uniqueGlyphIDs v1) ! (i - uniqueSize v1) =
            drop (uniqueSize v1) (uniqueGlyphIDs v) ! (i - uniqueSize v1)"
        using rest1 by simp
      then show ?thesis using i n12 lub1 by simp
    qed
    finally show "uniqueGlyphIDs v2 ! i = uniqueGlyphIDs v ! i" .
  qed
  have k: "length (universeToUnique v2) = length (universeToUnique v)"
    using lm2 lm1 by simp
  show ?case
    using a inv2 b c d e f g h k by blast
qed

lemma set_first_occurrences: "set (first_occurrences xs) = set xs"
  by (simp add: first_occurrences_def set_foldl_insert_new)

lemma distinct_first_occurrences: "distinct (first_occurrences xs)"
  by (simp add: first_occurrences_def distinct_foldl_insert_new)

lemma set_ok_init: "set_ok SkGlyphIDSet_init"
  by (simp add: set_ok_def SkGlyphIDSet_init_def)

lemma uniquifyGlyphIDs_sim:
  assumes ok: "set_ok s" and U: "0 < unat U"
    and capu: "length ids \<le> length ub" and capd: "length ids \<le> length db"
  shows "\<exists>r. uniquifyGlyphIDs s U ids ub db = Inr r \<and>
     returned_span r = first_occurrences (map (remap U) ids) \<and>
     length (returned_span r) \<le> length ids \<and>
     uniqueGlyphIDs_after r = returned_span r @ drop (length (returned_span r)) ub \<and>
     denseIndices_after r =
       map (\<lambda>g. word_of_nat (index_of (returned_span r) (remap U g))) ids @ drop (length ids) db \<and>
     set_ok (set_after r) \<and>
     fUniverseToUniqueSize (set_after r) = min 4096 (max (unat U) (fUniverseToUniqueSize s))"
proof -
  let ?s1 = "if unat U > fUniverseToUniqueSize s
               then \<lparr>fUniverseToUniqueSize = unat U, fUniverseToUnique = reset_bzero (unat U)\<rparr>
               else s"
  let ?v0 = "\<lparr>universeToUnique = fUniverseToUnique ?s1, uniqueGlyphIDs = ub,
              denseIndices = db, uniqueSize = 0, denseIndicesCursor = 0\<rparr>"
  have ok1: "set_ok ?s1" and sz1: "fUniverseToUniqueSize ?s1 = max (unat U) (fUniverseToUniqueSize s)"
    using ok by (simp_all add: set_ok_def reset_bzero_def)
  have inv0: "loop_inv U ?v0"
    using ok U by (simp add: loop_inv_def set_ok_def reset_bzero_def)
  have caps: "denseIndicesCursor ?v0 + length ids \<le> length (denseIndices ?v0)"
             "denseIndicesCursor ?v0 + length ids \<le> length (uniqueGlyphIDs ?v0)"
    using capu capd by simp_all
  from uniquify_loop_sim [OF inv0 caps]
  obtain v where loop: "uniquify_loop U ids ?v0 = Inr v"
    and inv: "loop_inv U v"
    and seen: "take (uniqueSize v) (uniqueGlyphIDs v) = first_occurrences (map (remap U) ids)"
    and cur: "denseIndicesCursor v = length ids"
    and ldb: "length (denseIndices v) = length db"
    and out: "\<forall>i. length ids \<le> i \<longrightarrow> denseIndices v ! i = db ! i"
    and idx: "\<forall>i<length ids. unat (denseIndices v ! i) =
        index_of (take (uniqueSize v) (uniqueGlyphIDs v)) (remap U (ids ! i))"
    and lub: "length (uniqueGlyphIDs v) = length ub"
    and rest: "\<forall>i. uniqueSize v \<le> i \<and> i < length ub \<longrightarrow> uniqueGlyphIDs v ! i = ub ! i"
    and lm: "length (universeToUnique v) = length (fUniverseToUnique ?s1)"
    by (auto simp: first_occurrences_def)
  let ?span = "take (uniqueSize v) (uniqueGlyphIDs v)"
  let ?s2 = "?s1\<lparr>fUniverseToUnique := universeToUnique v\<rparr>"
  let ?s3 = "if fUniverseToUniqueSize ?s2 > 4096
             then \<lparr>fUniverseToUniqueSize = 4096, fUniverseToUnique = reset_bzero 4096\<rparr>
             else ?s2"
  let ?r = "\<lparr>set_after = ?s3, returned_span = ?span,
             uniqueGlyphIDs_after = uniqueGlyphIDs v, denseIndices_after = denseIndices v\<rparr>"
  have res: "uniquifyGlyphIDs s U ids ub db = Inr ?r"
    using loop by (simp add: uniquifyGlyphIDs_def Let_def)
  have n_le: "uniqueSize v \<le> length (uniqueGlyphIDs v)" and n_cur: "uniqueSize v \<le> length ids"
    using inv cur by (simp_all add: loop_inv_def)
  have len_span: "length ?span = uniqueSize v"
    using n_le by simp
  have ubuf: "uniqueGlyphIDs v = ?span @ drop (length ?span) ub"
  proof -
    have "drop (uniqueSize v) (uniqueGlyphIDs v) = drop (uniqueSize v) ub"
      using rest lub by (intro nth_equalityI) simp_all
    then have "?span @ drop (length ?span) ub = ?span @ drop (uniqueSize v) (uniqueGlyphIDs v)"
      using len_span by simp
    then show ?thesis by simp
  qed
  have small: "length ?span \<le> 65536"
    using inv by (intro distinct_glyphs_length) (simp add: loop_inv_def)
  have dbuf: "denseIndices v =
       map (\<lambda>g. word_of_nat (index_of ?span (remap U g))) ids @ drop (length ids) db"
  proof (intro nth_equalityI)
    show "length (denseIndices v) =
          length (map (\<lambda>g. word_of_nat (index_of ?span (remap U g)) :: 16 word) ids @ drop (length ids) db)"
      using ldb capd by simp
  next
    fix i assume i: "i < length (denseIndices v)"
    show "denseIndices v ! i =
          (map (\<lambda>g. word_of_nat (index_of ?span (remap U g))) ids @ drop (length ids) db) ! i"
    proof (cases "i < length ids")
      case True
      then have "unat (denseIndices v ! i) = index_of ?span (remap U (ids ! i))"
        using idx by blast
      then have "denseIndices v ! i = word_of_nat (index_of ?span (remap U (ids ! i)))"
        by (metis of_nat_unat ucast_id)
      then show ?thesis using True by (simp add: nth_append)
    next
      case False
      then show ?thesis using out i ldb by (simp add: nth_append)
    qed
  qed
  have ok3: "set_ok ?s3"
    using ok1 lm by (simp add: set_ok_def reset_bzero_def)
  have sz3: "fUniverseToUniqueSize ?s3 = min 4096 (max (unat U) (fUniverseToUniqueSize s))"
    using sz1 by (simp add: min_def)
  show ?thesis
    apply (intro exI [of _ ?r] conjI)
    using res apply simp
    using seen apply simp
    using len_span n_cur apply simp
    using ubuf apply simp
    using dbuf apply simp
    using ok3 apply simp
    using sz3 apply simp
    done
qed


text \<open>Every call that returns keeps the storage of the set consistent.\<close>

lemma uniquify_step_length:
  "uniquify_step U g v = Inr v' \<Longrightarrow> length (universeToUnique v') = length (universeToUnique v)"
  by (auto simp: uniquify_step_def Let_def split: if_splits)

lemma uniquify_loop_length:
  "uniquify_loop U gs v = Inr v' \<Longrightarrow> length (universeToUnique v') = length (universeToUnique v)"
proof (induction gs arbitrary: v)
  case Nil
  then show ?case by simp
next
  case (Cons g gs)
  then show ?case
    by (auto split: sum.splits dest: uniquify_step_length)
qed

lemma uniquifyGlyphIDs_set_ok:
  assumes "uniquifyGlyphIDs s U glyphIDs uniqueBuf denseBuf = Inr r" and "set_ok s"
  shows "set_ok (set_after r)"
  using assms
  by (auto simp: uniquifyGlyphIDs_def Let_def set_ok_def reset_bzero_def
           split: sum.splits if_splits dest: uniquify_loop_length)

section \<open>The claims about the sparse set\<close>

text \<open>
  Claim C1. On a set whose storage matches its recorded size, for every glyph id sequence
  and every universe size of at least 1, with output buffers at least as long as the
  input, the call returns; the returned unique ids have no duplicates and are at most as
  many as the input ids; they are the front of the unique-id buffer; the dense-index
  buffer keeps its length and is unchanged beyond the input length, so one index is
  written per input id; the unique id at the dense index of position \<open>i\<close> is
  \<open>glyphIDs ! i\<close> when that is below the universe size and glyph 0 otherwise; and every
  out-of-range id gets the dense index of any other out-of-range id or of id 0.
\<close>

theorem uniquifyGlyphIDs_dedup_correct:
  assumes "set_ok s" and "1 \<le> unat universeSize"
    and "length glyphIDs \<le> length uniqueBuf" and "length glyphIDs \<le> length denseBuf"
  shows "\<exists>r. uniquifyGlyphIDs s universeSize glyphIDs uniqueBuf denseBuf = Inr r \<and>
     distinct (returned_span r) \<and>
     length (returned_span r) \<le> length glyphIDs \<and>
     take (length (returned_span r)) (uniqueGlyphIDs_after r) = returned_span r \<and>
     length (denseIndices_after r) = length denseBuf \<and>
     drop (length glyphIDs) (denseIndices_after r) = drop (length glyphIDs) denseBuf \<and>
     (\<forall>i<length glyphIDs.
        unat (denseIndices_after r ! i) < length (returned_span r) \<and>
        returned_span r ! unat (denseIndices_after r ! i) =
          (if unat (glyphIDs ! i) < unat universeSize then glyphIDs ! i else kUndefGlyph)) \<and>
     (\<forall>i<length glyphIDs. \<forall>j<length glyphIDs.
        unat universeSize \<le> unat (glyphIDs ! i) \<and>
        (unat universeSize \<le> unat (glyphIDs ! j) \<or> glyphIDs ! j = kUndefGlyph)
        \<longrightarrow> denseIndices_after r ! i = denseIndices_after r ! j)"
proof -
  from assms have U: "0 < unat universeSize" by simp
  from uniquifyGlyphIDs_sim [OF assms(1) U assms(3) assms(4)]
  obtain r where res: "uniquifyGlyphIDs s universeSize glyphIDs uniqueBuf denseBuf = Inr r"
    and span: "returned_span r = first_occurrences (map (remap universeSize) glyphIDs)"
    and len: "length (returned_span r) \<le> length glyphIDs"
    and ubuf: "uniqueGlyphIDs_after r = returned_span r @ drop (length (returned_span r)) uniqueBuf"
    and dbuf: "denseIndices_after r =
       map (\<lambda>g. word_of_nat (index_of (returned_span r) (remap universeSize g))) glyphIDs
       @ drop (length glyphIDs) denseBuf"
    by blast
  have dist: "distinct (returned_span r)"
    unfolding span by (rule distinct_first_occurrences)
  have small: "length (returned_span r) \<le> 65536"
    using dist by (rule distinct_glyphs_length)
  have nth: "denseIndices_after r ! i =
      word_of_nat (index_of (returned_span r) (remap universeSize (glyphIDs ! i)))"
    if "i < length glyphIDs" for i
    using that by (simp add: dbuf nth_append)
  have per: "unat (denseIndices_after r ! i) < length (returned_span r) \<and>
        returned_span r ! unat (denseIndices_after r ! i) =
          (if unat (glyphIDs ! i) < unat universeSize then glyphIDs ! i else kUndefGlyph)"
    if i: "i < length glyphIDs" for i
  proof -
    let ?g = "remap universeSize (glyphIDs ! i)"
    have mem: "?g \<in> set (returned_span r)"
      using i by (simp add: span set_first_occurrences)
    have lt: "index_of (returned_span r) ?g < length (returned_span r)"
      using mem by (rule index_of_less)
    then have "unat (denseIndices_after r ! i) = index_of (returned_span r) ?g"
      using small i by (simp add: nth unat_dense_index)
    moreover have "?g = (if unat (glyphIDs ! i) < unat universeSize then glyphIDs ! i else kUndefGlyph)"
      by (simp add: remap_def)
    ultimately show ?thesis
      using lt index_of_nth [OF mem] by simp
  qed
  have coll: "denseIndices_after r ! i = denseIndices_after r ! j"
    if "i < length glyphIDs" "j < length glyphIDs"
       "unat universeSize \<le> unat (glyphIDs ! i) \<and>
        (unat universeSize \<le> unat (glyphIDs ! j) \<or> glyphIDs ! j = kUndefGlyph)" for i j
  proof -
    have "remap universeSize (glyphIDs ! i) = kUndefGlyph"
      using that by (simp add: remap_def)
    moreover have "remap universeSize (glyphIDs ! j) = kUndefGlyph"
      using that by (auto simp: remap_def)
    ultimately show ?thesis using that by (simp add: nth)
  qed
  have "take (length (returned_span r)) (uniqueGlyphIDs_after r) = returned_span r"
    by (simp add: ubuf)
  moreover have "length (denseIndices_after r) = length denseBuf"
    using assms(4) by (simp add: dbuf)
  moreover have "drop (length glyphIDs) (denseIndices_after r) = drop (length glyphIDs) denseBuf"
    by (simp add: dbuf)
  ultimately show ?thesis
    using res dist len per coll by blast
qed

theorem uniquifyGlyphIDs_dedup_correct_witness:
  "set_ok SkGlyphIDSet_init \<and> 1 \<le> unat (4 :: 32 word) \<and>
   (\<exists>r. uniquifyGlyphIDs SkGlyphIDSet_init 4 [2, 7, 2, 0, 9] [5, 5, 5, 5, 5, 5] [9, 9, 9, 9, 9, 9] = Inr r \<and>
     distinct (returned_span r) \<and>
     length (returned_span r) \<le> 5 \<and>
     take (length (returned_span r)) (uniqueGlyphIDs_after r) = returned_span r \<and>
     length (denseIndices_after r) = 6 \<and>
     drop 5 (denseIndices_after r) = [9] \<and>
     returned_span r ! unat (denseIndices_after r ! 1) = kUndefGlyph \<and>
     returned_span r ! unat (denseIndices_after r ! 2) = 2 \<and>
     denseIndices_after r ! 1 = denseIndices_after r ! 3)"
proof -
  have ok: "set_ok SkGlyphIDSet_init"
    by (simp add: set_ok_def SkGlyphIDSet_init_def)
  have U: "1 \<le> unat (4 :: 32 word)" by simp
  have cu: "length [2, 7, 2, 0, 9 :: SkGlyphID] \<le> length [5, 5, 5, 5, 5, 5 :: SkGlyphID]" by simp
  have cd: "length [2, 7, 2, 0, 9 :: SkGlyphID] \<le> length [9, 9, 9, 9, 9, 9 :: 16 word]" by simp
  from uniquifyGlyphIDs_dedup_correct [OF ok U cu cd]
  obtain r where r: "uniquifyGlyphIDs SkGlyphIDSet_init 4 [2, 7, 2, 0, 9] [5, 5, 5, 5, 5, 5] [9, 9, 9, 9, 9, 9] = Inr r"
     "distinct (returned_span r)"
     "length (returned_span r) \<le> length [2, 7, 2, 0, 9 :: SkGlyphID]"
     "take (length (returned_span r)) (uniqueGlyphIDs_after r) = returned_span r"
     "length (denseIndices_after r) = length [9, 9, 9, 9, 9, 9 :: 16 word]"
     "drop (length [2, 7, 2, 0, 9 :: SkGlyphID]) (denseIndices_after r) = drop (length [2, 7, 2, 0, 9 :: SkGlyphID]) [9, 9, 9, 9, 9, 9]"
     and per: "\<forall>i<length [2, 7, 2, 0, 9 :: SkGlyphID].
        unat (denseIndices_after r ! i) < length (returned_span r) \<and>
        returned_span r ! unat (denseIndices_after r ! i) =
          (if unat ([2, 7, 2, 0, 9 :: SkGlyphID] ! i) < unat (4 :: 32 word) then [2, 7, 2, 0, 9] ! i else kUndefGlyph)"
     and coll: "\<forall>i<length [2, 7, 2, 0, 9 :: SkGlyphID]. \<forall>j<length [2, 7, 2, 0, 9 :: SkGlyphID].
        unat (4 :: 32 word) \<le> unat ([2, 7, 2, 0, 9 :: SkGlyphID] ! i) \<and>
        (unat (4 :: 32 word) \<le> unat ([2, 7, 2, 0, 9 :: SkGlyphID] ! j) \<or> [2, 7, 2, 0, 9 :: SkGlyphID] ! j = kUndefGlyph)
        \<longrightarrow> denseIndices_after r ! i = denseIndices_after r ! j"
    by blast
  have l3: "length (returned_span r) \<le> 5" using r(3) by simp
  have l5: "length (denseIndices_after r) = 6" using r(5) by simp
  have d: "drop 5 (denseIndices_after r) = [9]" using r(6) by (simp add: eval_nat_numeral)
  from per [rule_format, of 1] have p1: "returned_span r ! unat (denseIndices_after r ! 1) = kUndefGlyph"
    by simp
  from per [rule_format, of 2] have p2: "returned_span r ! unat (denseIndices_after r ! 2) = 2"
    by simp
  from coll [rule_format, of 1 3] have p3: "denseIndices_after r ! 1 = denseIndices_after r ! 3"
    by (simp add: kUndefGlyph_def)
  show ?thesis
    using ok U r(1) r(2) l3 r(4) l5 d p1 p2 p3 by blast
qed

text \<open>
  Claim C2. Two calls in sequence on the same set, with any universe sizes of at least 1
  and any ids: the second call returns the same span and leaves the same unique-id and
  dense-index buffers as a newly constructed set does on the second call's arguments.
\<close>

theorem uniquifyGlyphIDs_stale_state_harmless:
  assumes "set_ok s0"
    and "1 \<le> unat universeSize1"
    and "length glyphIDs1 \<le> length uniqueBuf1" and "length glyphIDs1 \<le> length denseBuf1"
    and "1 \<le> unat universeSize2"
    and "length glyphIDs2 \<le> length uniqueBuf2" and "length glyphIDs2 \<le> length denseBuf2"
  shows "\<exists>r1 r2 rf.
     uniquifyGlyphIDs s0 universeSize1 glyphIDs1 uniqueBuf1 denseBuf1 = Inr r1 \<and>
     uniquifyGlyphIDs (set_after r1) universeSize2 glyphIDs2 uniqueBuf2 denseBuf2 = Inr r2 \<and>
     uniquifyGlyphIDs SkGlyphIDSet_init universeSize2 glyphIDs2 uniqueBuf2 denseBuf2 = Inr rf \<and>
     returned_span r2 = returned_span rf \<and>
     uniqueGlyphIDs_after r2 = uniqueGlyphIDs_after rf \<and>
     denseIndices_after r2 = denseIndices_after rf"
proof -
  from assms have U1: "0 < unat universeSize1" and U2: "0 < unat universeSize2" by simp_all
  from uniquifyGlyphIDs_sim [OF assms(1) U1 assms(3) assms(4)]
  obtain r1 where r1: "uniquifyGlyphIDs s0 universeSize1 glyphIDs1 uniqueBuf1 denseBuf1 = Inr r1"
    and ok1: "set_ok (set_after r1)"
    by blast
  from uniquifyGlyphIDs_sim [OF ok1 U2 assms(6) assms(7)]
  obtain r2 where r2: "uniquifyGlyphIDs (set_after r1) universeSize2 glyphIDs2 uniqueBuf2 denseBuf2 = Inr r2"
    and span2: "returned_span r2 = first_occurrences (map (remap universeSize2) glyphIDs2)"
    and ubuf2: "uniqueGlyphIDs_after r2 = returned_span r2 @ drop (length (returned_span r2)) uniqueBuf2"
    and dbuf2: "denseIndices_after r2 =
       map (\<lambda>g. word_of_nat (index_of (returned_span r2) (remap universeSize2 g))) glyphIDs2
       @ drop (length glyphIDs2) denseBuf2"
    by blast
  from uniquifyGlyphIDs_sim [OF set_ok_init U2 assms(6) assms(7)]
  obtain rf where rf: "uniquifyGlyphIDs SkGlyphIDSet_init universeSize2 glyphIDs2 uniqueBuf2 denseBuf2 = Inr rf"
    and spanf: "returned_span rf = first_occurrences (map (remap universeSize2) glyphIDs2)"
    and ubuff: "uniqueGlyphIDs_after rf = returned_span rf @ drop (length (returned_span rf)) uniqueBuf2"
    and dbuff: "denseIndices_after rf =
       map (\<lambda>g. word_of_nat (index_of (returned_span rf) (remap universeSize2 g))) glyphIDs2
       @ drop (length glyphIDs2) denseBuf2"
    by blast
  have "returned_span r2 = returned_span rf"
    using span2 spanf by simp
  moreover have "uniqueGlyphIDs_after r2 = uniqueGlyphIDs_after rf"
    using ubuf2 ubuff span2 spanf by simp
  moreover have "denseIndices_after r2 = denseIndices_after rf"
    using dbuf2 dbuff span2 spanf by simp
  ultimately show ?thesis
    using r1 r2 rf by blast
qed

theorem uniquifyGlyphIDs_stale_state_harmless_witness:
  "\<exists>r1 r2 rf.
     uniquifyGlyphIDs SkGlyphIDSet_init 8 [7, 7, 3] [0, 0, 0] [0, 0, 0] = Inr r1 \<and>
     fUniverseToUnique (set_after r1) = [0, 0, 0, 1, 0, 0, 0, 0] \<and>
     uniquifyGlyphIDs (set_after r1) 8 [3, 7] [7, 3] [0, 1] = Inr r2 \<and>
     uniquifyGlyphIDs SkGlyphIDSet_init 8 [3, 7] [7, 3] [0, 1] = Inr rf \<and>
     returned_span r2 = returned_span rf \<and>
     uniqueGlyphIDs_after r2 = uniqueGlyphIDs_after rf \<and>
     denseIndices_after r2 = denseIndices_after rf"
proof -
  have ok: "set_ok SkGlyphIDSet_init"
    by (simp add: set_ok_def SkGlyphIDSet_init_def)
  have e: "uniquifyGlyphIDs SkGlyphIDSet_init 8 [7, 7, 3] [0, 0, 0] [0, 0, 0] =
      Inr \<lparr>set_after = \<lparr>fUniverseToUniqueSize = 8, fUniverseToUnique = [0, 0, 0, 1, 0, 0, 0, 0]\<rparr>,
           returned_span = [7, 3], uniqueGlyphIDs_after = [7, 3, 0], denseIndices_after = [0, 0, 1]\<rparr>"
    by code_simp
  from uniquifyGlyphIDs_stale_state_harmless
         [OF ok, of 8 "[7, 7, 3]" "[0, 0, 0]" "[0, 0, 0]" 8 "[3, 7]" "[7, 3]" "[0, 1]"]
  show ?thesis
    unfolding e by simp
qed

text \<open>
  Claim C6. When a call with a universe size above 4096 has returned, the set records a
  size of at most 4096 and its map has at most 4096 entries.
\<close>

theorem uniquifyGlyphIDs_shrink_bound:
  assumes "uniquifyGlyphIDs s universeSize glyphIDs uniqueBuf denseBuf = Inr r"
    and "4096 < unat universeSize"
  shows "fUniverseToUniqueSize (set_after r) \<le> 4096 \<and>
         length (fUniverseToUnique (set_after r)) \<le> 4096"
  using assms
  by (auto simp: uniquifyGlyphIDs_def Let_def reset_bzero_def split: sum.splits if_splits)

theorem uniquifyGlyphIDs_shrink_bound_witness:
  "\<exists>r. uniquifyGlyphIDs SkGlyphIDSet_init 5000 [4500, 6000] [0, 0] [0, 0] = Inr r \<and>
     4096 < unat (5000 :: 32 word) \<and>
     returned_span r = [4500, 0] \<and>
     fUniverseToUniqueSize (set_after r) \<le> 4096 \<and>
     length (fUniverseToUnique (set_after r)) \<le> 4096"
proof -
  have e: "uniquifyGlyphIDs SkGlyphIDSet_init 5000 [4500, 6000] [0, 0] [0, 0] =
      Inr \<lparr>set_after = \<lparr>fUniverseToUniqueSize = 4096, fUniverseToUnique = reset_bzero 4096\<rparr>,
           returned_span = [4500, 0], uniqueGlyphIDs_after = [4500, 0], denseIndices_after = [0, 1]\<rparr>"
    by (simp add: uniquifyGlyphIDs_def SkGlyphIDSet_init_def uniquify_step_def
          kUndefGlyph_def Let_def) (simp add: reset_bzero_def)
  have U: "4096 < unat (5000 :: 32 word)" by simp
  show ?thesis
    using uniquifyGlyphIDs_shrink_bound [OF e U] e U by simp
qed

text \<open>
  Claim C10. For a universe size of at least 1 the returned span lists the remapped ids in
  the order of their first occurrence (each id once, where it is first met), and the
  dense index written for an input id is the position of its remapped id in that span.
\<close>

theorem uniquifyGlyphIDs_first_occurrence_order:
  assumes "set_ok s" and "1 \<le> unat universeSize"
    and "length glyphIDs \<le> length uniqueBuf" and "length glyphIDs \<le> length denseBuf"
  shows "\<exists>r. uniquifyGlyphIDs s universeSize glyphIDs uniqueBuf denseBuf = Inr r \<and>
     returned_span r = first_occurrences (map (remap universeSize) glyphIDs) \<and>
     returned_span r = rev (remdups (rev (map (remap universeSize) glyphIDs))) \<and>
     (\<forall>i<length glyphIDs.
        unat (denseIndices_after r ! i) =
          index_of (returned_span r) (remap universeSize (glyphIDs ! i)))"
proof -
  from assms have U: "0 < unat universeSize" by simp
  from uniquifyGlyphIDs_sim [OF assms(1) U assms(3) assms(4)]
  obtain r where res: "uniquifyGlyphIDs s universeSize glyphIDs uniqueBuf denseBuf = Inr r"
    and span: "returned_span r = first_occurrences (map (remap universeSize) glyphIDs)"
    and dbuf: "denseIndices_after r =
       map (\<lambda>g. word_of_nat (index_of (returned_span r) (remap universeSize g))) glyphIDs
       @ drop (length glyphIDs) denseBuf"
    by blast
  have small: "length (returned_span r) \<le> 65536"
    unfolding span by (rule distinct_glyphs_length) (rule distinct_first_occurrences)
  have "unat (denseIndices_after r ! i) =
          index_of (returned_span r) (remap universeSize (glyphIDs ! i))"
    if i: "i < length glyphIDs" for i
  proof -
    have "remap universeSize (glyphIDs ! i) \<in> set (returned_span r)"
      using i by (simp add: span set_first_occurrences)
    then have "index_of (returned_span r) (remap universeSize (glyphIDs ! i)) < 65536"
      using small index_of_less by fastforce
    then show ?thesis
      using i by (simp add: dbuf nth_append unat_dense_index)
  qed
  then show ?thesis
    using res span first_occurrences_remdups [of "map (remap universeSize) glyphIDs"] by auto
qed

theorem uniquifyGlyphIDs_first_occurrence_order_witness:
  "\<exists>r. uniquifyGlyphIDs SkGlyphIDSet_init 10 [5, 3, 5, 12, 3, 0, 9] (replicate 7 0) (replicate 7 0) = Inr r \<and>
     returned_span r = [5, 3, 0, 9] \<and>
     unat (denseIndices_after r ! 0) = 0 \<and>
     unat (denseIndices_after r ! 2) = 0 \<and>
     unat (denseIndices_after r ! 3) = 2 \<and>
     unat (denseIndices_after r ! 6) = 3"
proof -
  have ok: "set_ok SkGlyphIDSet_init"
    by (simp add: set_ok_def SkGlyphIDSet_init_def)
  have U: "1 \<le> unat (10 :: 32 word)" by simp
  have cu: "length [5, 3, 5, 12, 3, 0, 9 :: SkGlyphID] \<le> length (replicate 7 (0 :: SkGlyphID))" by simp
  have cd: "length [5, 3, 5, 12, 3, 0, 9 :: SkGlyphID] \<le> length (replicate 7 (0 :: 16 word))" by simp
  from uniquifyGlyphIDs_first_occurrence_order [OF ok U cu cd]
  obtain r where r: "uniquifyGlyphIDs SkGlyphIDSet_init 10 [5, 3, 5, 12, 3, 0, 9] (replicate 7 0) (replicate 7 0) = Inr r"
    and span: "returned_span r = rev (remdups (rev (map (remap 10) [5, 3, 5, 12, 3, 0, 9])))"
    and idx: "\<forall>i<length [5, 3, 5, 12, 3, 0, 9 :: SkGlyphID].
        unat (denseIndices_after r ! i) =
          index_of (returned_span r) (remap 10 ([5, 3, 5, 12, 3, 0, 9] ! i))"
    by blast
  have span': "returned_span r = [5, 3, 0, 9]"
    unfolding span by (simp add: remap_def kUndefGlyph_def)
  have i0: "unat (denseIndices_after r ! 0) = 0"
    using idx [rule_format, of 0] by (simp add: span' remap_def kUndefGlyph_def)
  have i2: "unat (denseIndices_after r ! 2) = 0"
    using idx [rule_format, of 2] by (simp add: span' remap_def kUndefGlyph_def)
  have i3: "unat (denseIndices_after r ! 3) = 2"
    using idx [rule_format, of 3] by (simp add: span' remap_def kUndefGlyph_def)
  have i6: "unat (denseIndices_after r ! 6) = 3"
    using idx [rule_format, of 6] by (simp add: span' remap_def kUndefGlyph_def)
  show ?thesis
    using r span' i0 i2 i3 i6 by blast
qed

section \<open>Properties of the builder\<close>

subsection \<open>Buffers, text conversion and deduplication\<close>

lemma sint_pos_unat_pos: "0 < sint (w :: 32 word) \<Longrightarrow> 0 < unat w"
  by (cases "w = 0") (simp_all add: unat_gt_0)

lemma builder_ok_init: "builder_ok SkGlyphRunBuilder_init"
  by (simp add: builder_ok_def SkGlyphRunBuilder_init_def set_ok_init)

lemma initialize_ok:
  assumes "builder_ok b"
  shows "builder_ok (initialize b n)" and "n \<le> fMaxTotalRunSize (initialize b n)"
  using assms by (simp_all add: builder_ok_def initialize_def Let_def)

lemma initialize_fields:
  "fScratchGlyphRun (initialize b n) = None"
  "fGlyphIDSet (initialize b n) = fGlyphIDSet b"
  "fScratchAdvances (initialize b n) = fScratchAdvances b"
  "fScratchGlyphIDs (initialize b n) = fScratchGlyphIDs b"
  by (simp_all add: initialize_def Let_def)

lemma textToGlyphIDs_empty:
  "snd (textToGlyphIDs cnt b paint bytes) = [] \<Longrightarrow> fst (textToGlyphIDs cnt b paint bytes) = b"
  by (auto simp: textToGlyphIDs_def Let_def split: if_splits)

lemma textToGlyphIDs_no_chars:
  "getTextEncoding paint \<noteq> kGlyphID_TextEncoding \<Longrightarrow>
   cnt (convert_encoding (getTextEncoding paint)) bytes \<le> 0 \<Longrightarrow>
   textToGlyphIDs cnt b paint bytes = (b, [])"
  by (simp add: textToGlyphIDs_def Let_def)

lemma textToGlyphIDs_ok:
  "builder_ok b \<Longrightarrow> builder_ok (fst (textToGlyphIDs cnt b paint bytes))"
  by (simp add: textToGlyphIDs_def Let_def builder_ok_def)

lemma textToGlyphIDs_fields:
  "fGlyphIDSet (fst (textToGlyphIDs cnt b paint bytes)) = fGlyphIDSet b"
  "fScratchGlyphRun (fst (textToGlyphIDs cnt b paint bytes)) = fScratchGlyphRun b"
  "fScratchAdvances (fst (textToGlyphIDs cnt b paint bytes)) = fScratchAdvances b"
  by (simp_all add: textToGlyphIDs_def Let_def)

lemma addDenseAndUnique_skip:
  "\<not> 0 < sint (countGlyphs (GetTypefaceOrDefault paint)) \<Longrightarrow>
   addDenseAndUnique b paint glyphIDs = Inr (b, [])"
  by (simp add: addDenseAndUnique_def Let_def)

lemma first_occurrences_nonempty: "xs \<noteq> [] \<Longrightarrow> first_occurrences xs \<noteq> []"
  using set_first_occurrences [of xs] by (metis empty_set set_empty)

lemma addDenseAndUnique_run:
  fixes b :: "'a SkGlyphRunBuilder"
  assumes ok: "builder_ok b" and ne: "glyphIDs \<noteq> []"
    and cap: "length glyphIDs \<le> fMaxTotalRunSize b"
    and U: "0 < sint (countGlyphs (GetTypefaceOrDefault paint))"
  shows "\<exists>s' uniq. uniq = first_occurrences (map (remap (countGlyphs (GetTypefaceOrDefault paint))) glyphIDs) \<and>
     uniq \<noteq> [] \<and> length uniq \<le> length glyphIDs \<and> set_ok s' \<and>
     addDenseAndUnique b paint glyphIDs =
       Inr (b\<lparr>fGlyphIDSet := s',
              fUniqueGlyphIDs_buf := uniq @ drop (length uniq) (fUniqueGlyphIDs_buf b),
              fUniqueGlyphIDIndices_buf :=
                map (\<lambda>g. word_of_nat (index_of uniq (remap (countGlyphs (GetTypefaceOrDefault paint)) g))) glyphIDs
                @ drop (length glyphIDs) (fUniqueGlyphIDIndices_buf b)\<rparr>, uniq)"
proof -
  let ?U = "countGlyphs (GetTypefaceOrDefault paint)"
  have sok: "set_ok (fGlyphIDSet b)"
    and cu: "length glyphIDs \<le> length (fUniqueGlyphIDs_buf b)"
    and cd: "length glyphIDs \<le> length (fUniqueGlyphIDIndices_buf b)"
    using ok cap by (simp_all add: builder_ok_def)
  from uniquifyGlyphIDs_sim [OF sok sint_pos_unat_pos [OF U] cu cd]
  obtain r where res: "uniquifyGlyphIDs (fGlyphIDSet b) ?U glyphIDs (fUniqueGlyphIDs_buf b)
                          (fUniqueGlyphIDIndices_buf b) = Inr r"
    and span: "returned_span r = first_occurrences (map (remap ?U) glyphIDs)"
    and len: "length (returned_span r) \<le> length glyphIDs"
    and ubuf: "uniqueGlyphIDs_after r =
                 returned_span r @ drop (length (returned_span r)) (fUniqueGlyphIDs_buf b)"
    and dbuf: "denseIndices_after r =
       map (\<lambda>g. word_of_nat (index_of (returned_span r) (remap ?U g))) glyphIDs
       @ drop (length glyphIDs) (fUniqueGlyphIDIndices_buf b)"
    and ok': "set_ok (set_after r)"
    by blast
  have "returned_span r \<noteq> []"
    unfolding span using ne by (intro first_occurrences_nonempty) simp
  moreover have "addDenseAndUnique b paint glyphIDs =
       Inr (b\<lparr>fGlyphIDSet := set_after r,
              fUniqueGlyphIDs_buf := returned_span r @ drop (length (returned_span r)) (fUniqueGlyphIDs_buf b),
              fUniqueGlyphIDIndices_buf :=
                map (\<lambda>g. word_of_nat (index_of (returned_span r) (remap ?U g))) glyphIDs
                @ drop (length glyphIDs) (fUniqueGlyphIDIndices_buf b)\<rparr>, returned_span r)"
    using ne U res ubuf dbuf by (simp add: addDenseAndUnique_def Let_def)
  ultimately show ?thesis
    using span len ok' by blast
qed

lemma advance_loop_sim:
  fixes positions :: "'a::plus SkPoint list"
  assumes "i + n \<le> length positions" and "i + n \<le> length indices"
    and "\<forall>k. i \<le> k \<and> k < i + n \<longrightarrow> unat (indices ! k) < length advances"
  shows "\<exists>positions' e'. advance_loop n i advances indices positions e = Inr (positions', e') \<and>
     length positions' = length positions \<and>
     e' = foldl SkPoint_add e (map (\<lambda>k. advances ! unat (indices ! k)) [i..<i + n]) \<and>
     (\<forall>j. i \<le> j \<and> j < i + n \<longrightarrow>
        positions' ! j = foldl SkPoint_add e (map (\<lambda>k. advances ! unat (indices ! k)) [i..<j])) \<and>
     (\<forall>j. j < i \<or> i + n \<le> j \<longrightarrow> positions' ! j = positions ! j)"
  using assms
proof (induction n arbitrary: i positions e)
  case 0
  then show ?case by auto
next
  case (Suc n)
  let ?f = "\<lambda>k. advances ! unat (indices ! k)"
  let ?p1 = "positions[i := e]"
  let ?e1 = "SkPoint_add e (?f i)"
  have step: "advance_loop (Suc n) i advances indices positions e =
              advance_loop n (Suc i) advances indices ?p1 ?e1"
  proof -
    have "unat (indices ! i) < length advances"
      using Suc.prems(3) by simp
    then show ?thesis using Suc.prems(1,2) by simp
  qed
  have pre: "Suc i + n \<le> length ?p1" "Suc i + n \<le> length indices"
       "\<forall>k. Suc i \<le> k \<and> k < Suc i + n \<longrightarrow> unat (indices ! k) < length advances"
    using Suc.prems by simp_all
  from Suc.IH [OF pre, of ?e1]
  obtain positions' e' where
    loop: "advance_loop n (Suc i) advances indices ?p1 ?e1 = Inr (positions', e')"
    and len: "length positions' = length ?p1"
    and e': "e' = foldl SkPoint_add ?e1 (map ?f [Suc i..<Suc i + n])"
    and inner: "\<forall>j. Suc i \<le> j \<and> j < Suc i + n \<longrightarrow>
        positions' ! j = foldl SkPoint_add ?e1 (map ?f [Suc i..<j])"
    and outer: "\<forall>j. j < Suc i \<or> Suc i + n \<le> j \<longrightarrow> positions' ! j = ?p1 ! j"
    by blast
  have unfold: "foldl SkPoint_add e (map ?f [i..<j]) = foldl SkPoint_add ?e1 (map ?f [Suc i..<j])"
    if "i < j" for j
    using that by (simp add: upt_conv_Cons)
  have a: "e' = foldl SkPoint_add e (map ?f [i..<i + Suc n])"
    using e' unfold [of "i + Suc n"] by simp
  have b: "\<forall>j. i \<le> j \<and> j < i + Suc n \<longrightarrow> positions' ! j = foldl SkPoint_add e (map ?f [i..<j])"
  proof (intro allI impI)
    fix j assume j: "i \<le> j \<and> j < i + Suc n"
    show "positions' ! j = foldl SkPoint_add e (map ?f [i..<j])"
    proof (cases "j = i")
      case True
      then have "positions' ! j = ?p1 ! i" using outer by simp
      then show ?thesis using True Suc.prems by simp
    next
      case False
      then have "Suc i \<le> j \<and> j < Suc i + n" "i < j" using j by simp_all
      then show ?thesis using inner unfold [of j] by simp
    qed
  qed
  have c: "\<forall>j. j < i \<or> i + Suc n \<le> j \<longrightarrow> positions' ! j = positions ! j"
    using outer by auto
  show ?case
    using step loop len a b c by simp
qed

subsection \<open>The layout loop\<close>

lemma length_vector_resize: "length (vector_resize n fill xs) = n"
  by (simp add: vector_resize_def)

lemma advance_through_dense_index:
  fixes adv :: "SkGlyphID \<Rightarrow> 'a SkPoint"
  assumes uniq: "uniq = first_occurrences (map (remap U) glyphIDs)"
    and k: "k < length glyphIDs"
  shows "unat (word_of_nat (index_of uniq (remap U (glyphIDs ! k))) :: 16 word) < length uniq"
    and "(map adv uniq @ rest) ! unat (word_of_nat (index_of uniq (remap U (glyphIDs ! k))) :: 16 word)
           = adv (remap U (glyphIDs ! k))"
    and "uniq ! unat (word_of_nat (index_of uniq (remap U (glyphIDs ! k))) :: 16 word)
           = remap U (glyphIDs ! k)"
proof -
  let ?g = "remap U (glyphIDs ! k)"
  have mem: "?g \<in> set uniq"
    using k by (simp add: uniq set_first_occurrences)
  have small: "length uniq \<le> 65536"
    unfolding uniq by (rule distinct_glyphs_length) (rule distinct_first_occurrences)
  have lt: "index_of uniq ?g < length uniq"
    using mem by (rule index_of_less)
  then have u: "unat (word_of_nat (index_of uniq ?g) :: 16 word) = index_of uniq ?g"
    using small by (simp add: unat_dense_index)
  show "unat (word_of_nat (index_of uniq ?g) :: 16 word) < length uniq"
    using u lt by simp
  show "(map adv uniq @ rest) ! unat (word_of_nat (index_of uniq ?g) :: 16 word) = adv ?g"
    using u lt index_of_nth [OF mem] by (simp add: nth_append)
  show "uniq ! unat (word_of_nat (index_of uniq ?g) :: 16 word) = ?g"
    using u index_of_nth [OF mem] by simp
qed

lemma layout_positions:
  fixes origin :: "'a::plus SkPoint"
  assumes ok: "length glyphIDs \<le> length positions"
    and uniq: "uniq = first_occurrences (map (remap U) glyphIDs)"
    and occ: "occ = map (\<lambda>g. adv (remap U g)) glyphIDs"
  shows "\<exists>positions'.
     advance_loop (length glyphIDs) 0 (map adv uniq @ rest)
        (map (\<lambda>g. word_of_nat (index_of uniq (remap U g))) glyphIDs @ rest') positions origin
       = Inr (positions', foldl SkPoint_add origin occ) \<and>
     length positions' = length positions \<and>
     take (length glyphIDs) positions' = left_positions origin occ \<and>
     drop (length glyphIDs) positions' = drop (length glyphIDs) positions"
proof -
  let ?n = "length glyphIDs"
  let ?advances = "map adv uniq @ rest"
  let ?indices = "map (\<lambda>g. word_of_nat (index_of uniq (remap U g)) :: 16 word) glyphIDs @ rest'"
  let ?f = "\<lambda>k. ?advances ! unat (?indices ! k)"
  have idx: "?indices ! k = word_of_nat (index_of uniq (remap U (glyphIDs ! k)))" if "k < ?n" for k
    using that by (simp add: nth_append)
  have f: "?f k = occ ! k" and bound: "unat (?indices ! k) < length ?advances" if "k < ?n" for k
    using that advance_through_dense_index(1) [OF uniq that]
      advance_through_dense_index(2) [OF uniq that, where adv = adv and rest = rest]
    by (simp_all add: idx occ)
  have pre: "0 + ?n \<le> length positions" "0 + ?n \<le> length ?indices"
       "\<forall>k. 0 \<le> k \<and> k < 0 + ?n \<longrightarrow> unat (?indices ! k) < length ?advances"
    using ok bound by simp_all
  from advance_loop_sim [OF pre, of origin]
  obtain positions' e' where
    loop: "advance_loop ?n 0 ?advances ?indices positions origin = Inr (positions', e')"
    and len: "length positions' = length positions"
    and e': "e' = foldl SkPoint_add origin (map ?f [0..<?n])"
    and inner: "\<forall>j. j < ?n \<longrightarrow> positions' ! j = foldl SkPoint_add origin (map ?f [0..<j])"
    and outer: "\<forall>j. ?n \<le> j \<longrightarrow> positions' ! j = positions ! j"
    by auto
  have pref: "map ?f [0..<j] = take j occ" if "j \<le> ?n" for j
    using that f by (intro nth_equalityI) (simp_all add: occ)
  have a: "e' = foldl SkPoint_add origin occ"
    using e' pref [of ?n] by (simp add: occ)
  have b: "take ?n positions' = left_positions origin occ"
    unfolding left_positions_def
    using inner pref len ok by (intro nth_equalityI) (simp_all add: occ)
  have c: "drop ?n positions' = drop ?n positions"
    using outer len by (intro nth_equalityI) simp_all
  show ?thesis
    using loop len a b c by blast
qed

lemma length_left_positions: "length (left_positions origin advances) = length advances"
  by (simp add: left_positions_def)

lemma length_occurrence_advances: "length (occurrence_advances paint glyphIDs) = length glyphIDs"
  by (simp add: occurrence_advances_def)

lemma drawText_result:
  fixes b :: "'a::{zero,one,plus,minus,times,inverse} SkGlyphRunBuilder"
  assumes ok: "builder_ok b" and ne: "glyphIDs \<noteq> []"
    and cap: "length glyphIDs \<le> fMaxTotalRunSize b"
    and U: "0 < sint (countGlyphs (GetTypefaceOrDefault paint))"
  shows "\<exists>b' run. drawText b paint glyphIDs origin text clusters = Inr b' \<and>
     fScratchGlyphRun b' = Some run \<and> builder_ok b' \<and>
     fTemporaryShuntGlyphIDs run = glyphIDs \<and>
     fUniqueGlyphIDs run =
       first_occurrences (map (remap (countGlyphs (GetTypefaceOrDefault paint))) glyphIDs) \<and>
     fUniqueGlyphIDIndices run =
       map (\<lambda>g. word_of_nat (index_of (fUniqueGlyphIDs run)
                   (remap (countGlyphs (GetTypefaceOrDefault paint)) g))) glyphIDs \<and>
     length (fScratchAdvances b') = length glyphIDs \<and>
     take (length (fUniqueGlyphIDs run)) (fScratchAdvances b') =
       map (glyphAdvance paint) (fUniqueGlyphIDs run) \<and>
     fPositions run =
       (if getTextAlign paint = kLeft_Align
        then left_positions origin (occurrence_advances paint glyphIDs)
        else map (\<lambda>pt. SkPoint_sub pt
                     (alignment_shift (getTextAlign paint) origin (occurrence_advances paint glyphIDs)))
               (left_positions origin (occurrence_advances paint glyphIDs)))"
proof -
  let ?U = "countGlyphs (GetTypefaceOrDefault paint)"
  let ?n = "length glyphIDs"
  let ?occ = "occurrence_advances paint glyphIDs"
  from addDenseAndUnique_run [OF ok ne cap U]
  obtain s' uniq where uniq: "uniq = first_occurrences (map (remap ?U) glyphIDs)"
    and une: "uniq \<noteq> []" and ulen: "length uniq \<le> ?n" and sok: "set_ok s'"
    and dense: "addDenseAndUnique b paint glyphIDs =
       Inr (b\<lparr>fGlyphIDSet := s',
              fUniqueGlyphIDs_buf := uniq @ drop (length uniq) (fUniqueGlyphIDs_buf b),
              fUniqueGlyphIDIndices_buf :=
                map (\<lambda>g. word_of_nat (index_of uniq (remap ?U g))) glyphIDs
                @ drop ?n (fUniqueGlyphIDIndices_buf b)\<rparr>, uniq)"
    by blast
  let ?idx = "map (\<lambda>g. word_of_nat (index_of uniq (remap ?U g)) :: 16 word) glyphIDs"
  let ?b1 = "b\<lparr>fGlyphIDSet := s',
              fUniqueGlyphIDs_buf := uniq @ drop (length uniq) (fUniqueGlyphIDs_buf b),
              fUniqueGlyphIDIndices_buf := ?idx @ drop ?n (fUniqueGlyphIDIndices_buf b)\<rparr>"
  let ?resized = "vector_resize ?n (SkPoint_Make 0 0) (fScratchAdvances b)"
  let ?advances = "map (glyphAdvance paint) uniq @ drop (length uniq) ?resized"
  have lens: "length (fPositions_buf b) = fMaxTotalRunSize b"
       "length (fUniqueGlyphIDs_buf b) = fMaxTotalRunSize b"
       "length (fUniqueGlyphIDIndices_buf b) = fMaxTotalRunSize b"
    using ok by (simp_all add: builder_ok_def)
  have adv: "getAdvances (glyphAdvance paint) uniq ?resized = Inr ?advances"
    using ulen by (simp add: getAdvances_def length_vector_resize)
  have ladv: "length ?advances = ?n"
    using ulen by (simp add: length_vector_resize)
  have occ: "?occ = map (\<lambda>g. glyphAdvance paint (remap ?U g)) glyphIDs"
    by (simp add: occurrence_advances_def)
  have capp: "?n \<le> length (fPositions_buf b)"
    using cap lens by simp
  from layout_positions [OF capp uniq occ, of "drop (length uniq) ?resized"
         "drop ?n (fUniqueGlyphIDIndices_buf b)" origin]
  obtain positions where
    loop: "advance_loop ?n 0 ?advances (?idx @ drop ?n (fUniqueGlyphIDIndices_buf b))
             (fPositions_buf b) origin = Inr (positions, foldl SkPoint_add origin ?occ)"
    and plen: "length positions = length (fPositions_buf b)"
    and ptake: "take ?n positions = left_positions origin ?occ"
    by blast
  let ?shift = "alignment_shift (getTextAlign paint) origin ?occ"
  let ?positions' = "if getTextAlign paint \<noteq> kLeft_Align
                     then map (\<lambda>pt. SkPoint_sub pt ?shift) (take ?n positions) @ drop ?n positions
                     else positions"
  let ?b2 = "?b1\<lparr>fScratchAdvances := ?advances, fPositions_buf := ?positions'\<rparr>"
  let ?run = "\<lparr>fUniqueGlyphIDIndices = take ?n (fUniqueGlyphIDIndices_buf ?b2),
               fPositions = take ?n (fPositions_buf ?b2),
               fTemporaryShuntGlyphIDs = glyphIDs,
               fUniqueGlyphIDs = uniq,
               fText = text,
               fClusters = clusters,
               fRunPaint = paint\<lparr>getTextEncoding := kGlyphID_TextEncoding,
                                  getTextAlign := kLeft_Align\<rparr>\<rparr>"
  let ?b' = "?b2\<lparr>fScratchGlyphRun := Some ?run\<rparr>"
  have res: "drawText b paint glyphIDs origin text clusters = Inr ?b'"
    unfolding drawText_def Let_def dense
    using une adv loop ne
    by (simp add: makeGlyphRun_def alignment_shift_def total_advance_def Let_def)
  have ok': "builder_ok ?b'"
    using ok sok ulen cap plen lens by (simp add: builder_ok_def)
  have pos: "fPositions ?run =
       (if getTextAlign paint = kLeft_Align then left_positions origin ?occ
        else map (\<lambda>pt. SkPoint_sub pt ?shift) (left_positions origin ?occ))"
    using ptake plen capp by (simp add: length_left_positions length_occurrence_advances)
  have tk: "take (length uniq) (fScratchAdvances ?b') = map (glyphAdvance paint) uniq"
    by simp
  show ?thesis
    apply (intro exI [of _ ?b'] exI [of _ ?run] conjI)
    using res apply simp
    apply simp
    using ok' apply simp
    apply simp
    using uniq apply simp
    apply simp
    using ladv apply simp
    using tk apply simp
    using pos apply simp
    done
qed

subsection \<open>The prepare calls\<close>

lemma prepare_steps:
  fixes b :: "'a::zero SkGlyphRunBuilder"
  assumes ok: "builder_ok b"
    and ids: "snd (textToGlyphIDs cnt b paint bytes) = glyphIDs"
  shows "\<exists>b1. textToGlyphIDs cnt b paint bytes = (b1, glyphIDs) \<and>
     builder_ok (initialize b1 (length glyphIDs)) \<and>
     length glyphIDs \<le> fMaxTotalRunSize (initialize b1 (length glyphIDs)) \<and>
     fGlyphIDSet (initialize b1 (length glyphIDs)) = fGlyphIDSet b \<and>
     fScratchGlyphRun (initialize b1 (length glyphIDs)) = None"
proof -
  let ?b1 = "fst (textToGlyphIDs cnt b paint bytes)"
  have "textToGlyphIDs cnt b paint bytes = (?b1, glyphIDs)"
    using ids by (metis prod.collapse)
  moreover have "builder_ok ?b1"
    using ok by (rule textToGlyphIDs_ok)
  ultimately show ?thesis
    using initialize_ok [of ?b1 "length glyphIDs"]
      textToGlyphIDs_fields(1) [of cnt b paint bytes]
    by (intro exI [of _ ?b1]) (simp add: initialize_fields)
qed

lemma dense_for_validation:
  fixes b :: "'a SkGlyphRunBuilder"
  assumes ok: "builder_ok b" and ne: "glyphIDs \<noteq> []"
    and cap: "length glyphIDs \<le> fMaxTotalRunSize b"
  shows "\<exists>b1 unused.
     (if SK_DEBUG then addDenseAndUnique b paint glyphIDs else Inr (b, [])) = Inr (b1, unused) \<and>
     fPositions_buf b1 = fPositions_buf b \<and>
     fScratchGlyphRun b1 = fScratchGlyphRun b \<and>
     (\<not> 0 < sint (countGlyphs (GetTypefaceOrDefault paint)) \<longrightarrow> b1 = b)"
proof (cases "SK_DEBUG \<and> 0 < sint (countGlyphs (GetTypefaceOrDefault paint))")
  case True
  then have U: "0 < sint (countGlyphs (GetTypefaceOrDefault paint))" by simp
  from addDenseAndUnique_run [OF ok ne cap U] True show ?thesis
    by auto
next
  case False
  then show ?thesis
    by (auto simp: addDenseAndUnique_skip)
qed

lemma drawPosTextH_result:
  fixes b :: "'a SkGlyphRunBuilder"
  assumes ok: "builder_ok b" and ne: "glyphIDs \<noteq> []"
    and cap: "length glyphIDs \<le> fMaxTotalRunSize b"
    and xs: "length glyphIDs \<le> length xpos"
  shows "\<exists>b' run. drawPosTextH SK_DEBUG b paint glyphIDs xpos constY text clusters = Inr b' \<and>
     fScratchGlyphRun b' = Some run \<and>
     fTemporaryShuntGlyphIDs run = glyphIDs \<and>
     fPositions run = map (\<lambda>x. SkPoint_Make x constY) (take (length glyphIDs) xpos) \<and>
     fUniqueGlyphIDs run = [] \<and> fUniqueGlyphIDIndices run = [] \<and>
     (\<not> 0 < sint (countGlyphs (GetTypefaceOrDefault paint)) \<longrightarrow> fGlyphIDSet b' = fGlyphIDSet b)"
proof -
  from dense_for_validation [OF ok ne cap, of SK_DEBUG paint]
  obtain b1 unused where
    d: "(if SK_DEBUG then addDenseAndUnique b paint glyphIDs else Inr (b, [])) = Inr (b1, unused)"
    and p: "fPositions_buf b1 = fPositions_buf b"
    and same: "\<not> 0 < sint (countGlyphs (GetTypefaceOrDefault paint)) \<longrightarrow> b1 = b"
    by blast
  have "length glyphIDs \<le> length (fPositions_buf b1)"
    using ok cap p by (simp add: builder_ok_def)
  then show ?thesis
    unfolding drawPosTextH_def Let_def d
    using ne xs same by (auto simp: makeGlyphRun_def)
qed

lemma drawPosText_result:
  fixes b :: "'a SkGlyphRunBuilder"
  assumes ok: "builder_ok b" and ne: "glyphIDs \<noteq> []"
    and cap: "length glyphIDs \<le> fMaxTotalRunSize b"
    and ps: "length glyphIDs \<le> length pos"
  shows "\<exists>b' run. drawPosText SK_DEBUG b paint glyphIDs pos text clusters = Inr b' \<and>
     fScratchGlyphRun b' = Some run \<and>
     fTemporaryShuntGlyphIDs run = glyphIDs \<and>
     fPositions run = take (length glyphIDs) pos \<and>
     fUniqueGlyphIDs run = [] \<and> fUniqueGlyphIDIndices run = [] \<and>
     (\<not> 0 < sint (countGlyphs (GetTypefaceOrDefault paint)) \<longrightarrow> fGlyphIDSet b' = fGlyphIDSet b)"
proof -
  from dense_for_validation [OF ok ne cap, of SK_DEBUG paint]
  obtain b1 unused where
    d: "(if SK_DEBUG then addDenseAndUnique b paint glyphIDs else Inr (b, [])) = Inr (b1, unused)"
    and same: "\<not> 0 < sint (countGlyphs (GetTypefaceOrDefault paint)) \<longrightarrow> b1 = b"
    by blast
  show ?thesis
    unfolding drawPosText_def Let_def d
    using ne ps same by (auto simp: makeGlyphRun_def)
qed

lemma drawText_no_glyphs:
  "\<not> 0 < sint (countGlyphs (GetTypefaceOrDefault paint)) \<Longrightarrow>
   drawText b paint glyphIDs origin text clusters = Inr b"
  by (simp add: drawText_def addDenseAndUnique_skip)

text \<open>
  Claim C7. When the text decodes to no code point, or the glyph-id sequence it resolves
  to is empty, each of the three prepare calls returns without a fault and returns the
  builder it was given: no run is constructed, the slot read by \<^verbatim>\<open>useGlyphRun\<close> holds what
  it held before, and no buffer or recorded size has changed.
\<close>

theorem prepare_empty_text_no_run:
  fixes b :: "'a::{zero,one,plus,minus,times,inverse} SkGlyphRunBuilder"
  assumes "(getTextEncoding paint \<noteq> kGlyphID_TextEncoding \<and>
            SkUTFN_CountUnichars (convert_encoding (getTextEncoding paint)) bytes \<le> 0) \<or>
           snd (textToGlyphIDs SkUTFN_CountUnichars b paint bytes) = []"
  shows "prepareDrawText SkUTFN_CountUnichars b paint bytes origin = Inr b \<and>
         prepareDrawPosTextH SK_DEBUG SkUTFN_CountUnichars b paint bytes xpos constY = Inr b \<and>
         prepareDrawPosText SK_DEBUG SkUTFN_CountUnichars b paint bytes pos = Inr b"
proof -
  have "snd (textToGlyphIDs SkUTFN_CountUnichars b paint bytes) = []"
    using assms by (auto simp: textToGlyphIDs_no_chars)
  then have "textToGlyphIDs SkUTFN_CountUnichars b paint bytes = (b, [])"
    using textToGlyphIDs_empty [of SkUTFN_CountUnichars b paint bytes]
    by (metis prod.collapse)
  then show ?thesis
    by (simp add: prepareDrawText_def prepareDrawPosTextH_def prepareDrawPosText_def)
qed

text \<open>
  Claim C3, as the code has it. When the text resolves to a non-empty glyph-id sequence and
  the typeface reports no glyph, deduplication is skipped in every mode (the set is left
  as it was). \<^verbatim>\<open>prepareDrawText\<close> then produces no run: the slot, emptied by
  \<^verbatim>\<open>initialize\<close>, stays empty. \<^verbatim>\<open>prepareDrawPosTextH\<close> and \<^verbatim>\<open>prepareDrawPosText\<close> still produce a
  run, whose unique ids and dense indices are empty.
\<close>

theorem zero_universe_prepare:
  fixes b :: "'a::{zero,one,plus,minus,times,inverse} SkGlyphRunBuilder"
  assumes "builder_ok b"
    and "sint (countGlyphs (GetTypefaceOrDefault paint)) \<le> 0"
    and "snd (textToGlyphIDs SkUTFN_CountUnichars b paint bytes) = glyphIDs"
    and "glyphIDs \<noteq> []"
    and "length glyphIDs \<le> length xpos" and "length glyphIDs \<le> length pos"
  shows "\<exists>bt bh runh bp runp.
     prepareDrawText SkUTFN_CountUnichars b paint bytes origin = Inr bt \<and>
     useGlyphRun bt = None \<and> fGlyphIDSet bt = fGlyphIDSet b \<and>
     prepareDrawPosTextH SK_DEBUG SkUTFN_CountUnichars b paint bytes xpos constY = Inr bh \<and>
     useGlyphRun bh = Some runh \<and> fGlyphIDSet bh = fGlyphIDSet b \<and>
     fTemporaryShuntGlyphIDs runh = glyphIDs \<and>
     fUniqueGlyphIDs runh = [] \<and> fUniqueGlyphIDIndices runh = [] \<and>
     prepareDrawPosText SK_DEBUG SkUTFN_CountUnichars b paint bytes pos = Inr bp \<and>
     useGlyphRun bp = Some runp \<and> fGlyphIDSet bp = fGlyphIDSet b \<and>
     fTemporaryShuntGlyphIDs runp = glyphIDs \<and>
     fUniqueGlyphIDs runp = [] \<and> fUniqueGlyphIDIndices runp = []"
proof -
  have U: "\<not> 0 < sint (countGlyphs (GetTypefaceOrDefault paint))"
    using assms(2) by simp
  from prepare_steps [OF assms(1) assms(3)]
  obtain b1 where t: "textToGlyphIDs SkUTFN_CountUnichars b paint bytes = (b1, glyphIDs)"
    and ok1: "builder_ok (initialize b1 (length glyphIDs))"
    and cap1: "length glyphIDs \<le> fMaxTotalRunSize (initialize b1 (length glyphIDs))"
    and set1: "fGlyphIDSet (initialize b1 (length glyphIDs)) = fGlyphIDSet b"
    and slot1: "fScratchGlyphRun (initialize b1 (length glyphIDs)) = None"
    by blast
  let ?b2 = "initialize b1 (length glyphIDs)"
  have a: "prepareDrawText SkUTFN_CountUnichars b paint bytes origin = Inr ?b2"
    using t assms(4) U by (simp add: prepareDrawText_def drawText_no_glyphs)
  from drawPosTextH_result [OF ok1 assms(4) cap1 assms(5), of SK_DEBUG paint constY "[]" "[]"]
  obtain bh runh where h: "drawPosTextH SK_DEBUG ?b2 paint glyphIDs xpos constY [] [] = Inr bh"
    "fScratchGlyphRun bh = Some runh" "fTemporaryShuntGlyphIDs runh = glyphIDs"
    "fUniqueGlyphIDs runh = []" "fUniqueGlyphIDIndices runh = []"
    "fGlyphIDSet bh = fGlyphIDSet ?b2"
    using U by blast
  from drawPosText_result [OF ok1 assms(4) cap1 assms(6), of SK_DEBUG paint "[]" "[]"]
  obtain bp runp where p: "drawPosText SK_DEBUG ?b2 paint glyphIDs pos [] [] = Inr bp"
    "fScratchGlyphRun bp = Some runp" "fTemporaryShuntGlyphIDs runp = glyphIDs"
    "fUniqueGlyphIDs runp = []" "fUniqueGlyphIDIndices runp = []"
    "fGlyphIDSet bp = fGlyphIDSet ?b2"
    using U by blast
  have b: "prepareDrawPosTextH SK_DEBUG SkUTFN_CountUnichars b paint bytes xpos constY = Inr bh"
    using t assms(4) h(1) by (simp add: prepareDrawPosTextH_def)
  have c: "prepareDrawPosText SK_DEBUG SkUTFN_CountUnichars b paint bytes pos = Inr bp"
    using t assms(4) p(1) by (simp add: prepareDrawPosText_def)
  show ?thesis
    using a b c h p set1 slot1 by (simp add: useGlyphRun_def)
qed

text \<open>
  Claim C9. In the two positioned modes, for a non-empty glyph sequence and position
  arrays at least as long, the run produced carries the glyph ids, the positions
  \<open>(xpos ! i, constY)\<close> in the horizontal mode and the given points in the other, and empty
  spans of unique ids and dense indices, with or without \<^verbatim>\<open>SK_DEBUG\<close>.
\<close>

theorem positioned_modes_verbatim:
  fixes b :: "'a::zero SkGlyphRunBuilder"
  assumes "builder_ok b"
    and "snd (textToGlyphIDs SkUTFN_CountUnichars b paint bytes) = glyphIDs"
    and "glyphIDs \<noteq> []"
    and "length glyphIDs \<le> length xpos" and "length glyphIDs \<le> length pos"
  shows "\<exists>bh runh bp runp.
     prepareDrawPosTextH SK_DEBUG SkUTFN_CountUnichars b paint bytes xpos constY = Inr bh \<and>
     useGlyphRun bh = Some runh \<and>
     fTemporaryShuntGlyphIDs runh = glyphIDs \<and>
     fPositions runh = map (\<lambda>x. SkPoint_Make x constY) (take (length glyphIDs) xpos) \<and>
     fUniqueGlyphIDs runh = [] \<and> fUniqueGlyphIDIndices runh = [] \<and>
     prepareDrawPosText SK_DEBUG SkUTFN_CountUnichars b paint bytes pos = Inr bp \<and>
     useGlyphRun bp = Some runp \<and>
     fTemporaryShuntGlyphIDs runp = glyphIDs \<and>
     fPositions runp = take (length glyphIDs) pos \<and>
     fUniqueGlyphIDs runp = [] \<and> fUniqueGlyphIDIndices runp = []"
proof -
  from prepare_steps [OF assms(1) assms(2)]
  obtain b1 where t: "textToGlyphIDs SkUTFN_CountUnichars b paint bytes = (b1, glyphIDs)"
    and ok1: "builder_ok (initialize b1 (length glyphIDs))"
    and cap1: "length glyphIDs \<le> fMaxTotalRunSize (initialize b1 (length glyphIDs))"
    by blast
  let ?b2 = "initialize b1 (length glyphIDs)"
  from drawPosTextH_result [OF ok1 assms(3) cap1 assms(4), of SK_DEBUG paint constY "[]" "[]"]
  obtain bh runh where h: "drawPosTextH SK_DEBUG ?b2 paint glyphIDs xpos constY [] [] = Inr bh"
    "fScratchGlyphRun bh = Some runh" "fTemporaryShuntGlyphIDs runh = glyphIDs"
    "fPositions runh = map (\<lambda>x. SkPoint_Make x constY) (take (length glyphIDs) xpos)"
    "fUniqueGlyphIDs runh = []" "fUniqueGlyphIDIndices runh = []"
    by blast
  from drawPosText_result [OF ok1 assms(3) cap1 assms(5), of SK_DEBUG paint "[]" "[]"]
  obtain bp runp where p: "drawPosText SK_DEBUG ?b2 paint glyphIDs pos [] [] = Inr bp"
    "fScratchGlyphRun bp = Some runp" "fTemporaryShuntGlyphIDs runp = glyphIDs"
    "fPositions runp = take (length glyphIDs) pos"
    "fUniqueGlyphIDs runp = []" "fUniqueGlyphIDIndices runp = []"
    by blast
  have b: "prepareDrawPosTextH SK_DEBUG SkUTFN_CountUnichars b paint bytes xpos constY = Inr bh"
    using t assms(3) h(1) by (simp add: prepareDrawPosTextH_def)
  have c: "prepareDrawPosText SK_DEBUG SkUTFN_CountUnichars b paint bytes pos = Inr bp"
    using t assms(3) p(1) by (simp add: prepareDrawPosText_def)
  show ?thesis
    using b c h p by (simp add: useGlyphRun_def)
qed

text \<open>
  Claim C8, as the code has it. For a universe size of at least 1, on a consistent set and
  with output buffers at least as long as the input, \<^verbatim>\<open>uniquifyGlyphIDs\<close> does not fault:
  every access to the map is in bounds. A universe size of 0 is not passed to it:
  \<^verbatim>\<open>addDenseAndUnique\<close> returns an empty span and the builder unchanged when the typeface
  reports no glyph.
\<close>

theorem uniquifyGlyphIDs_needs_a_glyph:
  fixes b :: "'a SkGlyphRunBuilder"
  assumes "set_ok s" and "1 \<le> unat universeSize"
    and "length glyphIDs \<le> length uniqueBuf" and "length glyphIDs \<le> length denseBuf"
  shows "(\<exists>r. uniquifyGlyphIDs s universeSize glyphIDs uniqueBuf denseBuf = Inr r) \<and>
         (sint (countGlyphs (GetTypefaceOrDefault paint)) \<le> 0
            \<longrightarrow> addDenseAndUnique b paint glyphIDs = Inr (b, []))"
proof -
  from assms have U: "0 < unat universeSize" by simp
  from uniquifyGlyphIDs_sim [OF assms(1) U assms(3) assms(4)]
  have "\<exists>r. uniquifyGlyphIDs s universeSize glyphIDs uniqueBuf denseBuf = Inr r"
    by blast
  then show ?thesis
    by (simp add: addDenseAndUnique_skip)
qed

lemma textToGlyphIDs_align [simp]:
  "textToGlyphIDs cnt b (paint\<lparr>getTextAlign := a\<rparr>) bytes = textToGlyphIDs cnt b paint bytes"
  by (simp add: textToGlyphIDs_def Let_def)

lemma occurrence_advances_align [simp]:
  "occurrence_advances (paint\<lparr>getTextAlign := a\<rparr>) glyphIDs = occurrence_advances paint glyphIDs"
  by (simp add: occurrence_advances_def)

lemma prepareDrawText_result:
  fixes b :: "'a::{zero,one,plus,minus,times,inverse} SkGlyphRunBuilder"
  assumes ok: "builder_ok b"
    and U: "0 < sint (countGlyphs (GetTypefaceOrDefault paint))"
    and ids: "snd (textToGlyphIDs cnt b paint bytes) = glyphIDs" and ne: "glyphIDs \<noteq> []"
  shows "\<exists>b' run. prepareDrawText cnt b paint bytes origin = Inr b' \<and>
     fScratchGlyphRun b' = Some run \<and> builder_ok b' \<and>
     fTemporaryShuntGlyphIDs run = glyphIDs \<and>
     fUniqueGlyphIDs run =
       first_occurrences (map (remap (countGlyphs (GetTypefaceOrDefault paint))) glyphIDs) \<and>
     fUniqueGlyphIDIndices run =
       map (\<lambda>g. word_of_nat (index_of (fUniqueGlyphIDs run)
                   (remap (countGlyphs (GetTypefaceOrDefault paint)) g))) glyphIDs \<and>
     length (fScratchAdvances b') = length glyphIDs \<and>
     take (length (fUniqueGlyphIDs run)) (fScratchAdvances b') =
       map (glyphAdvance paint) (fUniqueGlyphIDs run) \<and>
     fPositions run =
       (if getTextAlign paint = kLeft_Align
        then left_positions origin (occurrence_advances paint glyphIDs)
        else map (\<lambda>pt. SkPoint_sub pt
                     (alignment_shift (getTextAlign paint) origin (occurrence_advances paint glyphIDs)))
               (left_positions origin (occurrence_advances paint glyphIDs)))"
proof -
  from prepare_steps [OF ok ids]
  obtain b1 where t: "textToGlyphIDs cnt b paint bytes = (b1, glyphIDs)"
    and ok1: "builder_ok (initialize b1 (length glyphIDs))"
    and cap1: "length glyphIDs \<le> fMaxTotalRunSize (initialize b1 (length glyphIDs))"
    by blast
  have "prepareDrawText cnt b paint bytes origin =
        drawText (initialize b1 (length glyphIDs)) paint glyphIDs origin [] []"
    using t ne by (simp add: prepareDrawText_def)
  then show ?thesis
    using drawText_result [OF ok1 ne cap1 U, of origin "[]" "[]"] by simp
qed

lemma left_layout_with_glyphs:
  fixes b :: "'a::{zero,one,plus,minus,times,inverse} SkGlyphRunBuilder"
  assumes "builder_ok b"
    and "getTextAlign paint = kLeft_Align"
    and "0 < sint (countGlyphs (GetTypefaceOrDefault paint))"
    and "snd (textToGlyphIDs SkUTFN_CountUnichars b paint bytes) = glyphIDs"
    and "glyphIDs \<noteq> []"
  shows "\<exists>b' run. prepareDrawText SkUTFN_CountUnichars b paint bytes origin = Inr b' \<and>
     useGlyphRun b' = Some run \<and>
     fTemporaryShuntGlyphIDs run = glyphIDs \<and>
     length (fUniqueGlyphIDIndices run) = length glyphIDs \<and>
     distinct (fUniqueGlyphIDs run) \<and>
     (\<forall>j<length (fUniqueGlyphIDs run).
        fScratchAdvances b' ! j = glyphAdvance paint (fUniqueGlyphIDs run ! j)) \<and>
     length (fPositions run) = length glyphIDs \<and>
     (\<forall>i<length glyphIDs.
        fPositions run ! i =
          foldl SkPoint_add origin
            (map (\<lambda>k. fScratchAdvances b' ! unat (fUniqueGlyphIDIndices run ! k)) [0..<i])) \<and>
     fPositions run = left_positions origin (occurrence_advances paint glyphIDs)"
proof -
  let ?U = "countGlyphs (GetTypefaceOrDefault paint)"
  let ?occ = "occurrence_advances paint glyphIDs"
  let ?n = "length glyphIDs"
  from prepareDrawText_result [OF assms(1) assms(3) assms(4) assms(5), of origin]
  obtain b' run where res: "prepareDrawText SkUTFN_CountUnichars b paint bytes origin = Inr b'"
    and slot: "fScratchGlyphRun b' = Some run"
    and gl: "fTemporaryShuntGlyphIDs run = glyphIDs"
    and uniq: "fUniqueGlyphIDs run = first_occurrences (map (remap ?U) glyphIDs)"
    and idx: "fUniqueGlyphIDIndices run =
       map (\<lambda>g. word_of_nat (index_of (fUniqueGlyphIDs run) (remap ?U g))) glyphIDs"
    and tk: "take (length (fUniqueGlyphIDs run)) (fScratchAdvances b') =
       map (glyphAdvance paint) (fUniqueGlyphIDs run)"
    and ladv: "length (fScratchAdvances b') = ?n"
    and pos: "fPositions run = left_positions origin ?occ"
    using assms(2) by auto
  let ?uniq = "fUniqueGlyphIDs run"
  let ?advs = "fScratchAdvances b'"
  have per_unique: "?advs ! j = glyphAdvance paint (?uniq ! j)" if "j < length ?uniq" for j
  proof -
    have "take (length ?uniq) ?advs ! j = map (glyphAdvance paint) ?uniq ! j"
      using tk by simp
    then show ?thesis using that by simp
  qed
  have through: "?advs ! unat (fUniqueGlyphIDIndices run ! k) = ?occ ! k" if k: "k < ?n" for k
  proof -
    let ?w = "word_of_nat (index_of ?uniq (remap ?U (glyphIDs ! k))) :: 16 word"
    have w: "fUniqueGlyphIDIndices run ! k = ?w"
      using k by (subst idx) simp
    have "?advs ! unat ?w = glyphAdvance paint (?uniq ! unat ?w)"
      using advance_through_dense_index(1) [OF uniq k] by (rule per_unique)
    also have "\<dots> = glyphAdvance paint (remap ?U (glyphIDs ! k))"
      using advance_through_dense_index(3) [OF uniq k] by simp
    finally show ?thesis
      using w k by (simp add: occurrence_advances_def)
  qed
  have nth_pos: "fPositions run ! i =
          foldl SkPoint_add origin
            (map (\<lambda>k. ?advs ! unat (fUniqueGlyphIDIndices run ! k)) [0..<i])"
    if i: "i < ?n" for i
  proof -
    have "map (\<lambda>k. ?advs ! unat (fUniqueGlyphIDIndices run ! k)) [0..<i] = take i ?occ"
      using i through by (intro nth_equalityI) (simp_all add: length_occurrence_advances)
    then show ?thesis
      using i by (simp add: pos left_positions_def length_occurrence_advances)
  qed
  have "distinct ?uniq"
    unfolding uniq by (rule distinct_first_occurrences)
  moreover have "length (fUniqueGlyphIDIndices run) = ?n"
    by (subst idx) simp
  moreover have "length (fPositions run) = ?n"
    by (simp add: pos length_left_positions length_occurrence_advances)
  ultimately show ?thesis
    using res slot gl per_unique nth_pos pos by (auto simp: useGlyphRun_def)
qed

lemma prepareDrawText_no_glyphs:
  fixes b :: "'a::{zero,one,plus,minus,times,inverse} SkGlyphRunBuilder"
  assumes "\<not> 0 < sint (countGlyphs (GetTypefaceOrDefault paint))"
    and "prepareDrawText cnt b paint bytes origin = Inr b'"
    and "snd (textToGlyphIDs cnt b paint bytes) \<noteq> []"
  shows "useGlyphRun b' = None"
proof -
  obtain b1 glyphIDs where t: "textToGlyphIDs cnt b paint bytes = (b1, glyphIDs)"
    by (cases "textToGlyphIDs cnt b paint bytes")
  then have "glyphIDs \<noteq> []"
    using assms(3) by simp
  then have "prepareDrawText cnt b paint bytes origin = Inr (initialize b1 (length glyphIDs))"
    using t assms(1) by (simp add: prepareDrawText_def drawText_no_glyphs)
  then show ?thesis
    using assms(2) by (auto simp: useGlyphRun_def initialize_fields)
qed

text \<open>
  Claim C4. \<^verbatim>\<open>prepareDrawText\<close> with left alignment, for a text that resolves to a non-empty
  glyph sequence: a run is produced when the typeface has a glyph, and in every run
  produced the scratch advances hold the advance of each unique id at its index, and the
  position of occurrence \<open>i\<close> is the origin with the advances of occurrences \<open>0..i-1\<close>
  added in order, each read from the scratch advances at the dense index of the
  occurrence.
\<close>

theorem prepareDrawText_left_layout:
  fixes b :: "'a::{zero,one,plus,minus,times,inverse} SkGlyphRunBuilder"
  assumes "builder_ok b"
    and "getTextAlign paint = kLeft_Align"
    and "snd (textToGlyphIDs SkUTFN_CountUnichars b paint bytes) = glyphIDs"
    and "glyphIDs \<noteq> []"
  shows "(0 < sint (countGlyphs (GetTypefaceOrDefault paint)) \<longrightarrow>
           (\<exists>b' run. prepareDrawText SkUTFN_CountUnichars b paint bytes origin = Inr b' \<and>
              useGlyphRun b' = Some run)) \<and>
         (\<forall>b' run.
            prepareDrawText SkUTFN_CountUnichars b paint bytes origin = Inr b' \<and>
            useGlyphRun b' = Some run \<longrightarrow>
              fTemporaryShuntGlyphIDs run = glyphIDs \<and>
              length (fUniqueGlyphIDIndices run) = length glyphIDs \<and>
              distinct (fUniqueGlyphIDs run) \<and>
              (\<forall>j<length (fUniqueGlyphIDs run).
                 fScratchAdvances b' ! j = glyphAdvance paint (fUniqueGlyphIDs run ! j)) \<and>
              length (fPositions run) = length glyphIDs \<and>
              (\<forall>i<length glyphIDs.
                 fPositions run ! i =
                   foldl SkPoint_add origin
                     (map (\<lambda>k. fScratchAdvances b' ! unat (fUniqueGlyphIDIndices run ! k)) [0..<i])) \<and>
              fPositions run = left_positions origin (occurrence_advances paint glyphIDs))"
proof (cases "0 < sint (countGlyphs (GetTypefaceOrDefault paint))")
  case True
  from left_layout_with_glyphs [OF assms(1) assms(2) True assms(3) assms(4), of origin]
  show ?thesis
    by (elim exE conjE) (simp add: True)
next
  case False
  have "useGlyphRun b' = None"
    if "prepareDrawText SkUTFN_CountUnichars b paint bytes origin = Inr b'" for b'
    using prepareDrawText_no_glyphs [OF False that] assms(3,4) by simp
  then show ?thesis
    using False by auto
qed

lemma alignment_with_glyphs:
  fixes b :: "'a::{zero,one,plus,minus,times,inverse} SkGlyphRunBuilder"
  assumes "builder_ok b"
    and "0 < sint (countGlyphs (GetTypefaceOrDefault paint))"
    and "snd (textToGlyphIDs SkUTFN_CountUnichars b paint bytes) = glyphIDs"
    and "glyphIDs \<noteq> []"
  shows "\<exists>bl runl bc runc br runr.
     prepareDrawText SkUTFN_CountUnichars b (paint\<lparr>getTextAlign := kLeft_Align\<rparr>) bytes origin = Inr bl \<and>
     useGlyphRun bl = Some runl \<and>
     prepareDrawText SkUTFN_CountUnichars b (paint\<lparr>getTextAlign := kCenter_Align\<rparr>) bytes origin = Inr bc \<and>
     useGlyphRun bc = Some runc \<and>
     prepareDrawText SkUTFN_CountUnichars b (paint\<lparr>getTextAlign := kRight_Align\<rparr>) bytes origin = Inr br \<and>
     useGlyphRun br = Some runr \<and>
     fPositions runl = left_positions origin (occurrence_advances paint glyphIDs) \<and>
     fPositions runc =
       map (\<lambda>pt. SkPoint_sub pt
              (SkPoint_scale (total_advance origin (occurrence_advances paint glyphIDs)) SK_ScalarHalf))
         (fPositions runl) \<and>
     fPositions runr =
       map (\<lambda>pt. SkPoint_sub pt (total_advance origin (occurrence_advances paint glyphIDs)))
         (fPositions runl)"
proof -
  have pre: "0 < sint (countGlyphs (GetTypefaceOrDefault (paint\<lparr>getTextAlign := a\<rparr>)))"
       "snd (textToGlyphIDs SkUTFN_CountUnichars b (paint\<lparr>getTextAlign := a\<rparr>) bytes) = glyphIDs"
    for a
    using assms(2,3) by simp_all
  from prepareDrawText_result [OF assms(1) pre(1) pre(2) assms(4), of kLeft_Align origin]
  obtain bl runl where l:
    "prepareDrawText SkUTFN_CountUnichars b (paint\<lparr>getTextAlign := kLeft_Align\<rparr>) bytes origin = Inr bl"
    "fScratchGlyphRun bl = Some runl"
    "fPositions runl = left_positions origin (occurrence_advances paint glyphIDs)"
    by auto
  from prepareDrawText_result [OF assms(1) pre(1) pre(2) assms(4), of kCenter_Align origin]
  obtain bc runc where c:
    "prepareDrawText SkUTFN_CountUnichars b (paint\<lparr>getTextAlign := kCenter_Align\<rparr>) bytes origin = Inr bc"
    "fScratchGlyphRun bc = Some runc"
    "fPositions runc = map (\<lambda>pt. SkPoint_sub pt
        (alignment_shift kCenter_Align origin (occurrence_advances paint glyphIDs)))
        (left_positions origin (occurrence_advances paint glyphIDs))"
    by auto
  from prepareDrawText_result [OF assms(1) pre(1) pre(2) assms(4), of kRight_Align origin]
  obtain br runr where r:
    "prepareDrawText SkUTFN_CountUnichars b (paint\<lparr>getTextAlign := kRight_Align\<rparr>) bytes origin = Inr br"
    "fScratchGlyphRun br = Some runr"
    "fPositions runr = map (\<lambda>pt. SkPoint_sub pt
        (alignment_shift kRight_Align origin (occurrence_advances paint glyphIDs)))
        (left_positions origin (occurrence_advances paint glyphIDs))"
    by auto
  show ?thesis
    using l c r by (simp add: useGlyphRun_def alignment_shift_def)
qed

text \<open>
  Claim C5. For the same builder, text and origin, and paints that differ in alignment
  only: the positions under center alignment are those under left alignment, each minus
  half the total advance, and under right alignment each minus the total advance, where
  the total advance is the end of the last glyph minus the origin. Left alignment leaves
  the accumulated positions as they are.
\<close>

theorem prepareDrawText_alignment_translation:
  fixes b :: "'a::{zero,one,plus,minus,times,inverse} SkGlyphRunBuilder"
  assumes "builder_ok b"
    and "snd (textToGlyphIDs SkUTFN_CountUnichars b paint bytes) = glyphIDs"
    and "glyphIDs \<noteq> []"
  shows "(0 < sint (countGlyphs (GetTypefaceOrDefault paint)) \<longrightarrow>
           (\<exists>bl runl bc runc br runr.
              prepareDrawText SkUTFN_CountUnichars b (paint\<lparr>getTextAlign := kLeft_Align\<rparr>) bytes origin = Inr bl \<and>
              useGlyphRun bl = Some runl \<and>
              prepareDrawText SkUTFN_CountUnichars b (paint\<lparr>getTextAlign := kCenter_Align\<rparr>) bytes origin = Inr bc \<and>
              useGlyphRun bc = Some runc \<and>
              prepareDrawText SkUTFN_CountUnichars b (paint\<lparr>getTextAlign := kRight_Align\<rparr>) bytes origin = Inr br \<and>
              useGlyphRun br = Some runr)) \<and>
         (\<forall>bl runl bc runc br runr.
            prepareDrawText SkUTFN_CountUnichars b (paint\<lparr>getTextAlign := kLeft_Align\<rparr>) bytes origin = Inr bl \<and>
            useGlyphRun bl = Some runl \<and>
            prepareDrawText SkUTFN_CountUnichars b (paint\<lparr>getTextAlign := kCenter_Align\<rparr>) bytes origin = Inr bc \<and>
            useGlyphRun bc = Some runc \<and>
            prepareDrawText SkUTFN_CountUnichars b (paint\<lparr>getTextAlign := kRight_Align\<rparr>) bytes origin = Inr br \<and>
            useGlyphRun br = Some runr \<longrightarrow>
              fPositions runl = left_positions origin (occurrence_advances paint glyphIDs) \<and>
              fPositions runc =
                map (\<lambda>pt. SkPoint_sub pt
                       (SkPoint_scale (total_advance origin (occurrence_advances paint glyphIDs))
                          SK_ScalarHalf))
                  (fPositions runl) \<and>
              fPositions runr =
                map (\<lambda>pt. SkPoint_sub pt (total_advance origin (occurrence_advances paint glyphIDs)))
                  (fPositions runl))"
proof (cases "0 < sint (countGlyphs (GetTypefaceOrDefault paint))")
  case True
  from alignment_with_glyphs [OF assms(1) True assms(2) assms(3), of origin]
  show ?thesis
    by (elim exE conjE) (simp add: True)
next
  case False
  then have F: "\<not> 0 < sint (countGlyphs (GetTypefaceOrDefault (paint\<lparr>getTextAlign := kLeft_Align\<rparr>)))"
    by simp
  have "useGlyphRun bl = None"
    if "prepareDrawText SkUTFN_CountUnichars b (paint\<lparr>getTextAlign := kLeft_Align\<rparr>) bytes origin = Inr bl"
    for bl
    using prepareDrawText_no_glyphs [OF F that] assms(2,3) by simp
  then show ?thesis
    using False by auto
qed

text \<open>In exact arithmetic the total advance is the sum of the advances.\<close>

lemma total_advance_exact:
  fixes origin :: "'a::ab_group_add SkPoint"
  shows "total_advance origin advances =
         \<lparr>fX = sum_list (map fX advances), fY = sum_list (map fY advances)\<rparr>"
proof -
  have "foldl SkPoint_add p advances =
        \<lparr>fX = fX p + sum_list (map fX advances), fY = fY p + sum_list (map fY advances)\<rparr>" for p :: "'a SkPoint"
    by (induction advances arbitrary: p) (simp_all add: SkPoint_add_def add.assoc)
  then show ?thesis
    by (simp add: total_advance_def SkPoint_sub_def)
qed

subsection \<open>Every prepare call keeps the buffers consistent\<close>

lemma addDenseAndUnique_ok:
  assumes "addDenseAndUnique b paint glyphIDs = Inr (b', uniq)" and "builder_ok b"
    and "length glyphIDs \<le> fMaxTotalRunSize b"
  shows "builder_ok b' \<and> fMaxTotalRunSize b' = fMaxTotalRunSize b \<and>
         fPositions_buf b' = fPositions_buf b"
proof (cases "glyphIDs \<noteq> [] \<and> 0 < sint (countGlyphs (GetTypefaceOrDefault paint))")
  case True
  from addDenseAndUnique_run [OF assms(2) _ assms(3), of paint] True assms(1,2,3)
  show ?thesis
    by (auto simp: builder_ok_def)
next
  case False
  then have "addDenseAndUnique b paint glyphIDs = Inr (b, [])"
    by (auto simp: addDenseAndUnique_def Let_def)
  with assms show ?thesis by simp
qed

lemma makeGlyphRun_ok:
  "builder_ok (makeGlyphRun b paint glyphIDs positions indices uniq text clusters) = builder_ok b"
  by (simp add: makeGlyphRun_def builder_ok_def)

lemma drawText_ok:
  fixes b :: "'a::{zero,one,plus,minus,times,inverse} SkGlyphRunBuilder"
  assumes "drawText b paint glyphIDs origin text clusters = Inr b'" and "builder_ok b"
    and "glyphIDs \<noteq> []" and "length glyphIDs \<le> fMaxTotalRunSize b"
  shows "builder_ok b'"
proof (cases "0 < sint (countGlyphs (GetTypefaceOrDefault paint))")
  case True
  from drawText_result [OF assms(2) assms(3) assms(4) True, of origin "text" clusters] assms(1)
  show ?thesis by auto
next
  case False
  then show ?thesis
    using assms(1,2) by (simp add: drawText_no_glyphs)
qed

lemma drawPosTextH_ok:
  assumes "drawPosTextH SK_DEBUG b paint glyphIDs xpos constY text clusters = Inr b'"
    and "builder_ok b" and "length glyphIDs \<le> fMaxTotalRunSize b"
  shows "builder_ok b'"
proof -
  obtain b1 unused where d:
    "(if SK_DEBUG then addDenseAndUnique b paint glyphIDs else Inr (b, [])) = Inr (b1, unused)"
    using assms(1) by (auto simp: drawPosTextH_def Let_def split: sum.splits)
  have ok1: "builder_ok b1"
    using d addDenseAndUnique_ok [OF _ assms(2) assms(3)] assms(2)
    by (cases SK_DEBUG) auto
  show ?thesis
    using assms(1) ok1 unfolding drawPosTextH_def Let_def d
    by (auto simp: makeGlyphRun_ok split: if_splits) (simp add: builder_ok_def)
qed

lemma drawPosText_ok:
  assumes "drawPosText SK_DEBUG b paint glyphIDs pos text clusters = Inr b'"
    and "builder_ok b" and "length glyphIDs \<le> fMaxTotalRunSize b"
  shows "builder_ok b'"
proof -
  obtain b1 unused where d:
    "(if SK_DEBUG then addDenseAndUnique b paint glyphIDs else Inr (b, [])) = Inr (b1, unused)"
    using assms(1) by (auto simp: drawPosText_def Let_def split: sum.splits)
  have ok1: "builder_ok b1"
    using d addDenseAndUnique_ok [OF _ assms(2) assms(3)] assms(2)
    by (cases SK_DEBUG) auto
  show ?thesis
    using assms(1) ok1 unfolding drawPosText_def Let_def d
    by (auto simp: makeGlyphRun_ok split: if_splits)
qed

lemma prepare_ok:
  fixes b :: "'a::{zero,one,plus,minus,times,inverse} SkGlyphRunBuilder"
  assumes "builder_ok b"
  shows "prepareDrawText cnt b paint bytes origin = Inr b' \<Longrightarrow> builder_ok b'"
    and "prepareDrawPosTextH SK_DEBUG cnt b paint bytes xpos constY = Inr b' \<Longrightarrow> builder_ok b'"
    and "prepareDrawPosText SK_DEBUG cnt b paint bytes pos = Inr b' \<Longrightarrow> builder_ok b'"
proof -
  obtain b1 glyphIDs where t: "textToGlyphIDs cnt b paint bytes = (b1, glyphIDs)"
    by (cases "textToGlyphIDs cnt b paint bytes")
  have ok1: "builder_ok b1"
    using textToGlyphIDs_ok [OF assms, of cnt paint bytes] t by simp
  note i = initialize_ok [OF ok1, of "length glyphIDs"]
  show "prepareDrawText cnt b paint bytes origin = Inr b' \<Longrightarrow> builder_ok b'"
    using t ok1 i drawText_ok [of "initialize b1 (length glyphIDs)" paint glyphIDs origin "[]" "[]" b']
    by (auto simp: prepareDrawText_def split: if_splits)
  show "prepareDrawPosTextH SK_DEBUG cnt b paint bytes xpos constY = Inr b' \<Longrightarrow> builder_ok b'"
    using t ok1 i drawPosTextH_ok [of SK_DEBUG "initialize b1 (length glyphIDs)" paint glyphIDs xpos constY "[]" "[]" b']
    by (auto simp: prepareDrawPosTextH_def split: if_splits)
  show "prepareDrawPosText SK_DEBUG cnt b paint bytes pos = Inr b' \<Longrightarrow> builder_ok b'"
    using t ok1 i drawPosText_ok [of SK_DEBUG "initialize b1 (length glyphIDs)" paint glyphIDs pos "[]" "[]" b']
    by (auto simp: prepareDrawPosText_def split: if_splits)
qed

subsection \<open>The claims on concrete inputs\<close>

lemma example_glyph_text:
  "snd (textToGlyphIDs example_count (SkGlyphRunBuilder_init :: real SkGlyphRunBuilder)
          (example_paint kGlyphID_TextEncoding align n) [10, 0, 4, 0, 10, 0]) = [10, 4, 10]"
  by (simp add: textToGlyphIDs_def example_paint_def)

lemma example_utf8_text:
  "snd (textToGlyphIDs example_count (SkGlyphRunBuilder_init :: real SkGlyphRunBuilder)
          (example_paint kUTF8_TextEncoding align n) [10, 4, 10]) = [10, 4, 10]"
  by (simp add: textToGlyphIDs_def example_paint_def example_count_def example_typeface_def
        Let_def upt_rec)

lemma example_advances:
  "occurrence_advances (example_paint encoding align 20) [10, 4, 10] =
     [SkPoint_Make 10 0, SkPoint_Make 4 0, SkPoint_Make 10 0]"
  by (simp add: occurrence_advances_def example_paint_def example_typeface_def remap_def)

lemma example_left_positions:
  "left_positions (SkPoint_Make 0 0) [SkPoint_Make 10 0, SkPoint_Make 4 0, SkPoint_Make (10 :: real) 0] =
     [SkPoint_Make 0 0, SkPoint_Make 10 0, SkPoint_Make 14 0]"
  by (simp add: left_positions_def SkPoint_Make_def SkPoint_add_def upt_rec)

lemma example_total_advance:
  "total_advance (SkPoint_Make 0 0) [SkPoint_Make 10 0, SkPoint_Make 4 0, SkPoint_Make (10 :: real) 0] =
     SkPoint_Make 24 0"
  by (simp add: total_advance_def SkPoint_Make_def SkPoint_add_def SkPoint_sub_def)

theorem prepareDrawText_left_layout_witness:
  "\<exists>b' run.
     prepareDrawText example_count (SkGlyphRunBuilder_init :: real SkGlyphRunBuilder)
       (example_paint kGlyphID_TextEncoding kLeft_Align 20) [10, 0, 4, 0, 10, 0] (SkPoint_Make 0 0) = Inr b' \<and>
     useGlyphRun b' = Some run \<and>
     fTemporaryShuntGlyphIDs run = [10, 4, 10] \<and>
     fPositions run = [SkPoint_Make 0 0, SkPoint_Make 10 0, SkPoint_Make 14 0]"
proof -
  have al: "getTextAlign (example_paint kGlyphID_TextEncoding kLeft_Align 20) = kLeft_Align"
    by (simp add: example_paint_def)
  have U: "0 < sint (countGlyphs (GetTypefaceOrDefault (example_paint kGlyphID_TextEncoding kLeft_Align 20)))"
    by (simp add: example_paint_def example_typeface_def)
  have ne: "[10, 4, 10 :: SkGlyphID] \<noteq> []" by simp
  note t = prepareDrawText_left_layout
         [where origin = "SkPoint_Make 0 0", OF builder_ok_init al example_glyph_text ne]
  from t [THEN conjunct1, rule_format, OF U]
  obtain b' run where r:
    "prepareDrawText example_count (SkGlyphRunBuilder_init :: real SkGlyphRunBuilder)
       (example_paint kGlyphID_TextEncoding kLeft_Align 20) [10, 0, 4, 0, 10, 0] (SkPoint_Make 0 0) = Inr b'
     \<and> useGlyphRun b' = Some run"
    by blast
  from t [THEN conjunct2, rule_format, OF r]
  have "fTemporaryShuntGlyphIDs run = [10, 4, 10]"
    and "fPositions run = [SkPoint_Make 0 0, SkPoint_Make 10 0, SkPoint_Make 14 0]"
    unfolding example_advances example_left_positions by blast+
  with r show ?thesis by blast
qed

theorem prepareDrawText_alignment_translation_witness:
  "\<exists>bl runl bc runc br runr.
     prepareDrawText example_count (SkGlyphRunBuilder_init :: real SkGlyphRunBuilder)
       (example_paint kUTF8_TextEncoding kLeft_Align 20) [10, 4, 10] (SkPoint_Make 0 0) = Inr bl \<and>
     useGlyphRun bl = Some runl \<and>
     prepareDrawText example_count (SkGlyphRunBuilder_init :: real SkGlyphRunBuilder)
       (example_paint kUTF8_TextEncoding kCenter_Align 20) [10, 4, 10] (SkPoint_Make 0 0) = Inr bc \<and>
     useGlyphRun bc = Some runc \<and>
     prepareDrawText example_count (SkGlyphRunBuilder_init :: real SkGlyphRunBuilder)
       (example_paint kUTF8_TextEncoding kRight_Align 20) [10, 4, 10] (SkPoint_Make 0 0) = Inr br \<and>
     useGlyphRun br = Some runr \<and>
     fPositions runl = [SkPoint_Make 0 0, SkPoint_Make 10 0, SkPoint_Make 14 0] \<and>
     fPositions runc = [SkPoint_Make (- 12) 0, SkPoint_Make (- 2) 0, SkPoint_Make 2 0] \<and>
     fPositions runr = [SkPoint_Make (- 24) 0, SkPoint_Make (- 14) 0, SkPoint_Make (- 10) 0]"
proof -
  have U: "0 < sint (countGlyphs (GetTypefaceOrDefault (example_paint kUTF8_TextEncoding kLeft_Align 20)))"
    by (simp add: example_paint_def example_typeface_def)
  have ne: "[10, 4, 10 :: SkGlyphID] \<noteq> []" by simp
  have p: "example_paint kUTF8_TextEncoding kLeft_Align 20\<lparr>getTextAlign := a\<rparr> =
           example_paint kUTF8_TextEncoding a 20" for a
    by (simp add: example_paint_def)
  note t = prepareDrawText_alignment_translation
         [where origin = "SkPoint_Make 0 0"
            and paint = "example_paint kUTF8_TextEncoding kLeft_Align 20",
          OF builder_ok_init example_utf8_text ne, unfolded p]
  from t [THEN conjunct1, rule_format, OF U]
  obtain bl runl bc runc br runr where r:
     "prepareDrawText example_count (SkGlyphRunBuilder_init :: real SkGlyphRunBuilder)
       (example_paint kUTF8_TextEncoding kLeft_Align 20) [10, 4, 10] (SkPoint_Make 0 0) = Inr bl \<and>
     useGlyphRun bl = Some runl \<and>
     prepareDrawText example_count (SkGlyphRunBuilder_init :: real SkGlyphRunBuilder)
       (example_paint kUTF8_TextEncoding kCenter_Align 20) [10, 4, 10] (SkPoint_Make 0 0) = Inr bc \<and>
     useGlyphRun bc = Some runc \<and>
     prepareDrawText example_count (SkGlyphRunBuilder_init :: real SkGlyphRunBuilder)
       (example_paint kUTF8_TextEncoding kRight_Align 20) [10, 4, 10] (SkPoint_Make 0 0) = Inr br \<and>
     useGlyphRun br = Some runr"
    by blast
  from t [THEN conjunct2, rule_format, OF r]
  have l: "fPositions runl = [SkPoint_Make 0 0, SkPoint_Make 10 0, SkPoint_Make 14 0]"
     and c: "fPositions runc = map (\<lambda>pt. SkPoint_sub pt (SkPoint_scale (SkPoint_Make 24 0) SK_ScalarHalf)) (fPositions runl)"
     and rr: "fPositions runr = map (\<lambda>pt. SkPoint_sub pt (SkPoint_Make 24 0)) (fPositions runl)"
    unfolding example_advances example_left_positions example_total_advance by blast+
  have c': "fPositions runc = [SkPoint_Make (- 12) 0, SkPoint_Make (- 2) 0, SkPoint_Make 2 0]"
    unfolding c l by (simp add: SkPoint_Make_def SkPoint_sub_def SkPoint_scale_def SK_ScalarHalf_def)
  have r': "fPositions runr = [SkPoint_Make (- 24) 0, SkPoint_Make (- 14) 0, SkPoint_Make (- 10) 0]"
    unfolding rr l by (simp add: SkPoint_Make_def SkPoint_sub_def)
  show ?thesis
    using r l c' r' by blast
qed

theorem prepare_empty_text_no_run_witness:
  "example_count (convert_encoding (getTextEncoding (example_paint kUTF8_TextEncoding kLeft_Align 20))) [] \<le> 0 \<and>
   prepareDrawText example_count (SkGlyphRunBuilder_init :: real SkGlyphRunBuilder)
     (example_paint kUTF8_TextEncoding kLeft_Align 20) [] (SkPoint_Make 0 0) = Inr SkGlyphRunBuilder_init \<and>
   prepareDrawPosTextH True example_count (SkGlyphRunBuilder_init :: real SkGlyphRunBuilder)
     (example_paint kUTF8_TextEncoding kLeft_Align 20) [] [] 0 = Inr SkGlyphRunBuilder_init \<and>
   prepareDrawPosText True example_count (SkGlyphRunBuilder_init :: real SkGlyphRunBuilder)
     (example_paint kUTF8_TextEncoding kLeft_Align 20) [] [] = Inr SkGlyphRunBuilder_init"
proof -
  have h: "(getTextEncoding (example_paint kUTF8_TextEncoding kLeft_Align 20) \<noteq> kGlyphID_TextEncoding \<and>
            example_count (convert_encoding (getTextEncoding (example_paint kUTF8_TextEncoding kLeft_Align 20))) [] \<le> 0) \<or>
           snd (textToGlyphIDs example_count (SkGlyphRunBuilder_init :: real SkGlyphRunBuilder)
                  (example_paint kUTF8_TextEncoding kLeft_Align 20) []) = []"
    by (simp add: example_paint_def example_count_def)
  have e: "example_count (convert_encoding (getTextEncoding (example_paint kUTF8_TextEncoding kLeft_Align 20))) [] \<le> 0"
    by (simp add: example_count_def)
  from prepare_empty_text_no_run
         [where origin = "SkPoint_Make 0 0" and SK_DEBUG = True and xpos = "[]" and constY = 0
            and pos = "[]", OF h] e
  show ?thesis
    by blast
qed

text \<open>
  With a typeface that reports 0 glyphs, \<^verbatim>\<open>prepareDrawText\<close> on the glyph ids 10, 4, 10
  returns and leaves no run in the slot.
\<close>

theorem zero_universe_prepare_counterexample:
  "map_sum id useGlyphRun
     (prepareDrawText example_count (SkGlyphRunBuilder_init :: real SkGlyphRunBuilder)
        (example_paint kGlyphID_TextEncoding kLeft_Align 0) [10, 0, 4, 0, 10, 0] (SkPoint_Make 0 0))
   = Inr None"
  by (simp add: prepareDrawText_def textToGlyphIDs_def example_paint_def example_typeface_def
        drawText_def addDenseAndUnique_def initialize_def useGlyphRun_def SkGlyphRunBuilder_init_def Let_def)

theorem zero_universe_prepare_witness:
  "\<exists>bt bh runh bp runp.
     prepareDrawText example_count (SkGlyphRunBuilder_init :: real SkGlyphRunBuilder)
       (example_paint kGlyphID_TextEncoding kLeft_Align 0) [10, 0, 4, 0, 10, 0] (SkPoint_Make 0 0) = Inr bt \<and>
     useGlyphRun bt = None \<and>
     prepareDrawPosTextH True example_count (SkGlyphRunBuilder_init :: real SkGlyphRunBuilder)
       (example_paint kGlyphID_TextEncoding kLeft_Align 0) [10, 0, 4, 0, 10, 0] [1, 2, 3] 7 = Inr bh \<and>
     useGlyphRun bh = Some runh \<and>
     fTemporaryShuntGlyphIDs runh = [10, 4, 10] \<and>
     fUniqueGlyphIDs runh = [] \<and> fUniqueGlyphIDIndices runh = [] \<and>
     prepareDrawPosText True example_count (SkGlyphRunBuilder_init :: real SkGlyphRunBuilder)
       (example_paint kGlyphID_TextEncoding kLeft_Align 0) [10, 0, 4, 0, 10, 0]
       [SkPoint_Make 1 2, SkPoint_Make 3 4, SkPoint_Make 5 6] = Inr bp \<and>
     useGlyphRun bp = Some runp \<and>
     fTemporaryShuntGlyphIDs runp = [10, 4, 10] \<and>
     fUniqueGlyphIDs runp = [] \<and> fUniqueGlyphIDIndices runp = []"
proof -
  have U: "sint (countGlyphs (GetTypefaceOrDefault (example_paint kGlyphID_TextEncoding kLeft_Align 0))) \<le> 0"
    by (simp add: example_paint_def example_typeface_def)
  have ne: "[10, 4, 10 :: SkGlyphID] \<noteq> []" by simp
  have lx: "length [10, 4, 10 :: SkGlyphID] \<le> length [1, 2, 3 :: real]" by simp
  have lp: "length [10, 4, 10 :: SkGlyphID] \<le> length [SkPoint_Make 1 2, SkPoint_Make 3 4, SkPoint_Make (5 :: real) 6]"
    by simp
  from zero_universe_prepare
         [where origin = "SkPoint_Make 0 0" and SK_DEBUG = True and constY = 7,
          OF builder_ok_init U example_glyph_text ne lx lp]
  show ?thesis by blast
qed

theorem positioned_modes_verbatim_witness:
  "\<exists>bh runh bp runp.
     prepareDrawPosTextH True example_count (SkGlyphRunBuilder_init :: real SkGlyphRunBuilder)
       (example_paint kUTF8_TextEncoding kRight_Align 20) [10, 4, 10] [1, 2, 3, 4] 7 = Inr bh \<and>
     useGlyphRun bh = Some runh \<and>
     fTemporaryShuntGlyphIDs runh = [10, 4, 10] \<and>
     fPositions runh = [SkPoint_Make 1 7, SkPoint_Make 2 7, SkPoint_Make 3 7] \<and>
     fUniqueGlyphIDs runh = [] \<and> fUniqueGlyphIDIndices runh = [] \<and>
     prepareDrawPosText True example_count (SkGlyphRunBuilder_init :: real SkGlyphRunBuilder)
       (example_paint kUTF8_TextEncoding kRight_Align 20) [10, 4, 10]
       [SkPoint_Make 1 2, SkPoint_Make 3 4, SkPoint_Make 5 6] = Inr bp \<and>
     useGlyphRun bp = Some runp \<and>
     fTemporaryShuntGlyphIDs runp = [10, 4, 10] \<and>
     fPositions runp = [SkPoint_Make 1 2, SkPoint_Make 3 4, SkPoint_Make 5 6] \<and>
     fUniqueGlyphIDs runp = [] \<and> fUniqueGlyphIDIndices runp = []"
proof -
  have ne: "[10, 4, 10 :: SkGlyphID] \<noteq> []" by simp
  have lx: "length [10, 4, 10 :: SkGlyphID] \<le> length [1, 2, 3, 4 :: real]" by simp
  have lp: "length [10, 4, 10 :: SkGlyphID] \<le> length [SkPoint_Make 1 2, SkPoint_Make 3 4, SkPoint_Make (5 :: real) 6]"
    by simp
  from positioned_modes_verbatim
         [where SK_DEBUG = True and constY = 7, OF builder_ok_init example_utf8_text ne lx lp]
  show ?thesis by simp
qed

text \<open>
  With universe size 0 on a new set, the first glyph id is remapped to 0 and the map,
  which has no entry, is read at index 0.
\<close>

theorem uniquifyGlyphIDs_needs_a_glyph_counterexample:
  "uniquifyGlyphIDs SkGlyphIDSet_init 0 [5] [0] [0] = Inl OutOfBounds"
  by (simp add: uniquifyGlyphIDs_def SkGlyphIDSet_init_def reset_bzero_def uniquify_step_def
        kUndefGlyph_def Let_def)

theorem uniquifyGlyphIDs_needs_a_glyph_witness:
  "(\<exists>r. uniquifyGlyphIDs SkGlyphIDSet_init 1 [5] [0] [0] = Inr r) \<and>
   addDenseAndUnique (SkGlyphRunBuilder_init :: real SkGlyphRunBuilder)
     (example_paint kGlyphID_TextEncoding kLeft_Align 0) [5] = Inr (SkGlyphRunBuilder_init, [])"
proof -
  have U: "1 \<le> unat (1 :: 32 word)" by simp
  have c1: "length [5 :: SkGlyphID] \<le> length [0 :: SkGlyphID]" by simp
  have c2: "length [5 :: SkGlyphID] \<le> length [0 :: 16 word]" by simp
  have z: "sint (countGlyphs (GetTypefaceOrDefault (example_paint kGlyphID_TextEncoding kLeft_Align 0))) \<le> 0"
    by (simp add: example_paint_def example_typeface_def)
  from uniquifyGlyphIDs_needs_a_glyph
         [where paint = "example_paint kGlyphID_TextEncoding kLeft_Align 0"
            and b = "SkGlyphRunBuilder_init :: real SkGlyphRunBuilder",
          OF set_ok_init U c1 c2] z
  show ?thesis by simp
qed

end
